theory Spec2Isabelle
  imports Complex_Main "HOL-Library.Sublist" "HOL-Library.Multiset" "HOL-Library.AList"
begin

section \<open>String helpers of the JavaScript runtime\<close>

text \<open>
  Strings are lists of characters.  The helpers below are the \<open>String.prototype\<close>
  and \<open>Array.prototype\<close> methods the sources call: \<open>startsWith\<close>, \<open>includes\<close>,
  \<open>split\<close> (with a non-empty separator), \<open>replace\<close> with a string pattern (which
  replaces the first occurrence only) and \<open>join\<close>.
\<close>

definition startsWith :: "string \<Rightarrow> string \<Rightarrow> bool" where
  "startsWith s p = prefix p s"

fun includesStr :: "string \<Rightarrow> string \<Rightarrow> bool" where
  "includesStr [] p = (p = [])"
| "includesStr (c # cs) p = (prefix p (c # cs) \<or> includesStr cs p)"

function splitStr :: "string \<Rightarrow> string \<Rightarrow> string \<Rightarrow> string list" where
  "splitStr sep cur [] = [rev cur]"
| "splitStr sep cur (c # cs) =
     (if sep \<noteq> [] \<and> prefix sep (c # cs)
      then rev cur # splitStr sep [] (drop (length sep) (c # cs))
      else splitStr sep (c # cur) cs)"
  by pat_completeness auto
termination
  by (relation "measure (\<lambda>(sep, cur, s). length s)") (auto simp: neq_Nil_conv)

definition split :: "string \<Rightarrow> string \<Rightarrow> string list" where
  "split s sep = splitStr sep [] s"

fun replaceFirst :: "string \<Rightarrow> string \<Rightarrow> string \<Rightarrow> string" where
  "replaceFirst [] pat rep = (if pat = [] then rep else [])"
| "replaceFirst (c # cs) pat rep =
     (if prefix pat (c # cs) then rep @ drop (length pat) (c # cs)
      else c # replaceFirst cs pat rep)"

fun join :: "string list \<Rightarrow> string \<Rightarrow> string" where
  "join [] sep = []"
| "join [x] sep = x"
| "join (x # y # ys) sep = x @ sep @ join (y # ys) sep"

section \<open>Chunker: \<open>chunkFile\<close>\<close>

text \<open>
  \<open>line.match(/^#+/)?.[0].length\<close>: the number of leading \<open>#\<close> characters, or no
  match at all.  The caller supplies the default (\<open>?? 0\<close> or \<open>?? -Infinity\<close>).
\<close>

definition matchHashes :: "string \<Rightarrow> nat option" where
  "matchHashes s =
     (let n = length (takeWhile (\<lambda>c. c = CHR ''#'') s)
      in if n = 0 then None else Some n)"

datatype level = NegInfinity | Level nat

fun geLevel :: "level \<Rightarrow> nat \<Rightarrow> bool" where
  "geLevel NegInfinity h = False"
| "geLevel (Level n) h = (h \<le> n)"

text \<open>
  \<open>acc.headingStack[acc.headingStack.length - 1]?.match(/^#+/)?.[0].length ?? d\<close>:
  the level of the top of the stack (its last element), or the default \<open>d\<close> when the
  stack is empty or its top does not start with \<open>#\<close>.
\<close>

definition topLevel :: "string list \<Rightarrow> level \<Rightarrow> level" where
  "topLevel st d =
     (if st = [] then d
      else (case matchHashes (last st) of None \<Rightarrow> d | Some n \<Rightarrow> Level n))"

text \<open>The \<open>while (lastHeadingLevel >= headingLevel)\<close> loop; \<open>pop\<close> is \<open>butlast\<close>.\<close>

function popHeadings :: "nat \<Rightarrow> level \<Rightarrow> string list \<Rightarrow> string list" where
  "popHeadings headingLevel lastHeadingLevel st =
     (if geLevel lastHeadingLevel headingLevel
      then popHeadings headingLevel (topLevel (butlast st) NegInfinity) (butlast st)
      else st)"
  by pat_completeness auto
termination
proof (relation "measure (\<lambda>(h, l, st). length st + (case l of NegInfinity \<Rightarrow> 0 | Level _ \<Rightarrow> 1))")
  show "wf (measure (\<lambda>(h, l, st). length st + (case l of NegInfinity \<Rightarrow> 0 | Level _ \<Rightarrow> 1)))"
    by simp
next
  fix headingLevel :: nat and lastHeadingLevel :: level and st :: "string list"
  assume "geLevel lastHeadingLevel headingLevel"
  then obtain n where l: "lastHeadingLevel = Level n"
    by (cases lastHeadingLevel) auto
  show "((headingLevel, topLevel (butlast st) NegInfinity, butlast st),
         (headingLevel, lastHeadingLevel, st))
        \<in> measure (\<lambda>(h, l, st). length st + (case l of NegInfinity \<Rightarrow> 0 | Level _ \<Rightarrow> 1))"
    using l by (cases st rule: rev_cases) (auto simp: topLevel_def split: option.splits)
qed

declare popHeadings.simps [simp del]

record chunkAcc =
  headingStack :: "string list"
  chunks :: "string list"

text \<open>The callback of \<open>lines.reduce\<close>.\<close>

definition chunkStep :: "string \<Rightarrow> chunkAcc \<Rightarrow> string \<Rightarrow> chunkAcc" where
  "chunkStep fileParts acc line =
     (let chunks0 = (if chunks acc = [] then [[]] else chunks acc) in
      if startsWith line ''#'' then
        (let headingLevel = (case matchHashes line of None \<Rightarrow> 0 | Some n \<Rightarrow> n);
             lastHeadingLevel = topLevel (headingStack acc) (Level 0);
             stack' = popHeadings headingLevel lastHeadingLevel (headingStack acc) @ [line]
         in \<lparr> headingStack = stack',
              chunks = chunks0 @ [fileParts @ ''\<newline>'' @ join stack' ''\<newline>''] \<rparr>)
      else
        \<lparr> headingStack = headingStack acc,
          chunks = butlast chunks0 @ [last chunks0 @ ''\<newline>'' @ line] \<rparr>)"

text \<open>
  \<open>filePath.split("vault/").pop()?.split("/").map(part => part.replace(".md", "")).join(" > ")\<close>.
  \<open>split\<close> never returns an empty array, so \<open>pop()\<close> is always defined.
\<close>

definition fileParts :: "string \<Rightarrow> string" where
  "fileParts filePath =
     join (map (\<lambda>part. replaceFirst part ''.md'' '''') (split (last (split filePath ''vault/'')) ''/''))
          '' > ''"

definition chunkReduce :: "string \<Rightarrow> string list \<Rightarrow> chunkAcc" where
  "chunkReduce fp ls = foldl (chunkStep fp) \<lparr> headingStack = [], chunks = [] \<rparr> ls"

definition chunkFile :: "string \<Rightarrow> string \<Rightarrow> string list" where
  "chunkFile filePath fileContent =
     filter (\<lambda>c. c \<noteq> [])
       (chunks (chunkReduce (fileParts filePath) (split fileContent ''\<newline>'')))"

text \<open>
  Vocabulary for the heading stack: the depth of a heading is its number of leading
  \<open>#\<close>; a well-formed stack holds heading lines of strictly increasing depth.
\<close>

definition headingDepth :: "string \<Rightarrow> nat" where
  "headingDepth s = length (takeWhile (\<lambda>c. c = CHR ''#'') s)"

definition stackOk :: "string list \<Rightarrow> bool" where
  "stackOk st = ((\<forall>h \<in> set st. startsWith h ''#'') \<and> sorted_wrt (<) (map headingDepth st))"

section \<open>Errors, retry with backoff, the embedding backend\<close>

text \<open>
  A thrown value: an \<open>Error\<close> object with its message, or any other thrown value.
  Timers (\<open>setTimeout\<close>, the rate limiter's \<open>waitForSlot\<close>, the backoff delays) only
  postpone the continuation and never throw; calls of the logging module only print.
  Neither changes a value computed below, and both are left out of the model.
\<close>

datatype error = Error string | ErrnoError string string | NonError

text \<open>\<open>error.message\<close> in a template literal; \<open>ErrnoError code message\<close> is a Node system error.\<close>

fun errorMessage :: "error \<Rightarrow> string" where
  "errorMessage (Error m) = m"
| "errorMessage (ErrnoError c m) = m"
| "errorMessage NonError = ''undefined''"

definition digitChar :: "nat \<Rightarrow> char" where
  "digitChar n = ''0123456789abcdef'' ! (n mod 16)"

text \<open>Decimal rendering of a non-negative integer, as template literals do.\<close>

function showNat :: "nat \<Rightarrow> string" where
  "showNat n = (if n < 10 then [digitChar n] else showNat (n div 10) @ [digitChar (n mod 10)])"
  by pat_completeness auto
termination
  by (relation "measure id") auto

declare showNat.simps [simp del]

text \<open>
  \<open>retryWithBackoff\<close> with its default configuration (\<open>maxRetries: 3\<close>).  The operation
  is stateful: it takes the state and returns the new one with its outcome.  The loop
  leaves through \<open>return\<close> on success and through \<open>break\<close> at the last attempt; the
  \<open>throw\<close> after the loop wraps the last error's message.
\<close>

definition maxRetries :: nat where
  "maxRetries = 3"

function retryLoop :: "('s \<Rightarrow> (error + 'a) \<times> 's) \<Rightarrow> nat \<Rightarrow> error option \<Rightarrow> 's \<Rightarrow> (error + 'a) \<times> 's" where
  "retryLoop operation attempt lastError s =
     (if attempt \<le> maxRetries then
        (case operation s of
           (Inr v, s') \<Rightarrow> (Inr v, s')
         | (Inl e, s') \<Rightarrow>
             (if attempt = maxRetries
              then (Inl (Error (''Operation failed after '' @ showNat maxRetries @ '' retries: ''
                                @ errorMessage e)), s')
              else retryLoop operation (Suc attempt) (Some e) s'))
      else (Inl (Error (''Operation failed after '' @ showNat maxRetries @ '' retries: ''
                        @ (case lastError of Some e \<Rightarrow> errorMessage e | None \<Rightarrow> ''undefined''))), s))"
  by pat_completeness auto
termination
  by (relation "measure (\<lambda>(operation, attempt, lastError, s). Suc maxRetries - attempt)") auto

declare retryLoop.simps [simp del]

definition retryWithBackoff :: "('s \<Rightarrow> (error + 'a) \<times> 's) \<Rightarrow> 's \<Rightarrow> (error + 'a) \<times> 's" where
  "retryWithBackoff operation s = retryLoop operation 0 None s"

text \<open>
  The embedding endpoint.  What it answers is not the program's to decide: the backend
  is a function from the number of requests made so far and the prompt to the response
  of that request.  The state of the embedder is that number of requests.
\<close>

datatype payload = EmbeddingResponse "real list" | OtherPayload

datatype response =
    FetchFailed string
  | NotOk nat string
  | JsonFailed string
  | Json payload

type_synonym backend = "nat \<Rightarrow> string \<Rightarrow> response"

definition vectorDimensions :: nat where
  "vectorDimensions = 768"

definition fallbackModels :: "string list" where
  "fallbackModels = []"

fun isOllamaEmbeddingResponse :: "payload \<Rightarrow> bool" where
  "isOllamaEmbeddingResponse (EmbeddingResponse v) = True"
| "isOllamaEmbeddingResponse OtherPayload = False"

definition validateVectorDimensions :: "real list \<Rightarrow> bool" where
  "validateVectorDimensions v = (length v = vectorDimensions)"

text \<open>The operation handed to \<open>retryWithBackoff\<close> in \<open>embedChunks\<close>: one request.\<close>

definition embeddingCall :: "backend \<Rightarrow> string \<Rightarrow> nat \<Rightarrow> (error + real list) \<times> nat" where
  "embeddingCall be chunk n =
     (case be n chunk of
        FetchFailed m \<Rightarrow> (Inl (Error m), Suc n)
      | NotOk status body \<Rightarrow>
          (Inl (Error (''Ollama API request failed with status '' @ showNat status @ '': '' @ body)),
           Suc n)
      | JsonFailed m \<Rightarrow> (Inl (Error m), Suc n)
      | Json OtherPayload \<Rightarrow>
          (Inl (Error ''Invalid embedding format received from Ollama''), Suc n)
      | Json (EmbeddingResponse v) \<Rightarrow>
          (if \<not> validateVectorDimensions v
           then (Inl (Error ''Vector dimension mismatch''), Suc n)
           else (Inr v, Suc n)))"

section \<open>Embedder: \<open>embedChunks\<close>\<close>

record embedded =
  embedding :: "real list"
  chunkText :: string

text \<open>
  The inner \<open>for (attempts = 0; attempts <= fallbackModels.length; attempts++)\<close> loop for
  one chunk: \<open>Inr\<close> the embedding at the first success (\<open>break\<close>), \<open>Inl lastError\<close> when
  every attempt threw.
\<close>

function attemptLoop :: "backend \<Rightarrow> string \<Rightarrow> nat \<Rightarrow> error option \<Rightarrow> nat \<Rightarrow> (error option + real list) \<times> nat" where
  "attemptLoop be chunk attempts lastError n =
     (if attempts \<le> length fallbackModels then
        (case retryWithBackoff (embeddingCall be chunk) n of
           (Inr e, n') \<Rightarrow> (Inr e, n')
         | (Inl err, n') \<Rightarrow> attemptLoop be chunk (Suc attempts) (Some err) n')
      else (Inl lastError, n))"
  by pat_completeness auto
termination
  by (relation "measure (\<lambda>(be, chunk, attempts, lastError, n). Suc (length fallbackModels) - attempts)") auto

declare attemptLoop.simps [simp del]

text \<open>The outer loop over the chunks, with \<open>results\<close> and \<open>failedChunks\<close>.\<close>

fun embedLoop :: "backend \<Rightarrow> string list \<Rightarrow> embedded list \<Rightarrow> (string \<times> error option) list \<Rightarrow> nat
    \<Rightarrow> (embedded list \<times> (string \<times> error option) list) \<times> nat" where
  "embedLoop be [] results failedChunks n = ((results, failedChunks), n)"
| "embedLoop be (chunk # rest) results failedChunks n =
     (case attemptLoop be chunk 0 None n of
        (Inr e, n') \<Rightarrow>
          embedLoop be rest (results @ [\<lparr> embedding = e, chunkText = chunk \<rparr>]) failedChunks n'
      | (Inl lastError, n') \<Rightarrow>
          embedLoop be rest results (failedChunks @ [(chunk, lastError)]) n')"

text \<open>
  \<open>embedChunks\<close> calls itself on the failed chunks.  Nothing in the source bounds that
  recursion, so the function is partial: \<open>None\<close> is a call that never returns.  It has
  no failure result: every \<open>throw\<close> of the loop body is caught inside the loop.
\<close>

partial_function (option) embedChunks :: "backend \<Rightarrow> string list \<Rightarrow> nat \<Rightarrow> (embedded list \<times> nat) option" where
  "embedChunks be chunkList n =
     (if chunkList = [] then Some ([], n)
      else
        (case embedLoop be chunkList [] [] n of
           ((results, failedChunks), n1) \<Rightarrow>
             (if failedChunks \<noteq> []
              then Option.bind (embedChunks be (map fst failedChunks) n1)
                     (\<lambda>(retryResults, n2). Some (results @ retryResults, n2))
              else Some (results, n1))))"

declare embedChunks.simps [code]

text \<open>
  Vocabulary for statements about the backend: it is healthy from request \<open>N\<close> on when
  every request numbered \<open>N\<close> or later is answered with an embedding of the expected
  dimension; \<open>alwaysFailing\<close> refuses every request, \<open>failingUntil N\<close> refuses the first
  \<open>N\<close> requests and answers every later one, \<open>failingBetween lo hi\<close> refuses the
  requests numbered from \<open>lo\<close> up to, not including, \<open>hi\<close> and answers every other one.
\<close>

definition healthyFrom :: "backend \<Rightarrow> nat \<Rightarrow> bool" where
  "healthyFrom be N =
     (\<forall>m\<ge>N. \<forall>c. \<exists>v. be m c = Json (EmbeddingResponse v) \<and> validateVectorDimensions v)"

definition alwaysFailing :: backend where
  "alwaysFailing n c = FetchFailed ''fetch failed''"

definition failingUntil :: "nat \<Rightarrow> backend" where
  "failingUntil N n c =
     (if n < N then FetchFailed ''fetch failed''
      else Json (EmbeddingResponse (replicate vectorDimensions 0)))"


text \<open>The body of \<open>embedChunks\<close> as a functional of its self-call, for induction.\<close>

definition embedBody :: "(backend \<Rightarrow> string list \<Rightarrow> nat \<Rightarrow> (embedded list \<times> nat) option)
    \<Rightarrow> backend \<Rightarrow> string list \<Rightarrow> nat \<Rightarrow> (embedded list \<times> nat) option" where
  "embedBody f be chunkList n =
     (if chunkList = [] then Some ([], n)
      else
        (case embedLoop be chunkList [] [] n of
           ((results, failedChunks), n1) \<Rightarrow>
             (if failedChunks \<noteq> []
              then Option.bind (f be (map fst failedChunks) n1)
                     (\<lambda>(retryResults, n2). Some (results @ retryResults, n2))
              else Some (results, n1))))"

section \<open>The change cache and its JSON text\<close>

record cacheEntry =
  contentHash :: string
  vectorIds :: "string list"
  modifiedTime :: int

text \<open>
  \<open>Cache = Record<string, CacheEntry>\<close>: an object, that is, its own properties in
  order.  Keys of an object are distinct.  \<open>cache[k]\<close> is \<open>map_of cache k\<close> and the
  assignment \<open>cache[k] = e\<close> is \<open>AList.update k e cache\<close> (in place for an existing key,
  appended for a new one).  \<open>modifiedTime\<close> is \<open>Date.getTime()\<close>, an integral number of
  milliseconds.
\<close>

type_synonym cache = "(string \<times> cacheEntry) list"

subsection \<open>\<open>JSON.stringify(cache, null, 2)\<close>\<close>

text \<open>
  The text \<open>JSON.stringify\<close> produces for a cache with indentation 2.  Strings are
  quoted as \<open>QuoteJSONString\<close> does: the quote and the backslash are escaped, the control
  characters have their short escape or \<open>\u00XX\<close>, every other character stands for
  itself.  Characters are the 256 values of \<open>char\<close>.
\<close>

definition dquote :: char where "dquote = CHR 0x22"
definition backslash :: char where "backslash = CHR 0x5C"

definition quoteChar :: "char \<Rightarrow> string" where
  "quoteChar c =
     (if c = dquote then [backslash, dquote]
      else if c = backslash then [backslash, backslash]
      else if c = CHR 0x08 then [backslash, CHR ''b'']
      else if c = CHR 0x09 then [backslash, CHR ''t'']
      else if c = CHR 0x0A then [backslash, CHR ''n'']
      else if c = CHR 0x0C then [backslash, CHR ''f'']
      else if c = CHR 0x0D then [backslash, CHR ''r'']
      else if (of_char c :: nat) < 32
        then [backslash, CHR ''u'', CHR ''0'', CHR ''0'',
              digitChar (of_char c div 16), digitChar (of_char c mod 16)]
      else [c])"

definition quoteJSONString :: "string \<Rightarrow> string" where
  "quoteJSONString s = dquote # concat (map quoteChar s) @ [dquote]"

definition showInt :: "int \<Rightarrow> string" where
  "showInt i = (if i < 0 then CHR ''-'' # showNat (nat (- i)) else showNat (nat i))"

definition stringifyIds :: "string list \<Rightarrow> string" where
  "stringifyIds ids =
     (if ids = [] then ''[]''
      else ''[\<newline>'' @ join (map (\<lambda>i. ''      '' @ quoteJSONString i) ids) '',\<newline>''
           @ ''\<newline>    ]'')"

definition stringifyEntry :: "cacheEntry \<Rightarrow> string" where
  "stringifyEntry e =
     ''{\<newline>    '' @ quoteJSONString ''contentHash'' @ '': '' @ quoteJSONString (contentHash e)
     @ '',\<newline>    '' @ quoteJSONString ''vectorIds'' @ '': '' @ stringifyIds (vectorIds e)
     @ '',\<newline>    '' @ quoteJSONString ''modifiedTime'' @ '': '' @ showInt (modifiedTime e)
     @ ''\<newline>  }''"

definition stringifyMember :: "string \<times> cacheEntry \<Rightarrow> string" where
  "stringifyMember = (\<lambda>(k, e). ''  '' @ quoteJSONString k @ '': '' @ stringifyEntry e)"

definition stringifyCache :: "cache \<Rightarrow> string" where
  "stringifyCache c =
     (if c = [] then ''{}''
      else ''{\<newline>'' @ join (map stringifyMember c) '',\<newline>'' @ ''\<newline>}'')"

subsection \<open>\<open>JSON.parse(data) as Cache\<close>\<close>

text \<open>
  \<open>JSON.parse\<close> restricted to the texts that denote a cache: an object whose values are
  objects with the members \<open>contentHash\<close> (a string), \<open>vectorIds\<close> (an array of
  strings) and \<open>modifiedTime\<close> (an integer), in this order, with any JSON white space
  between the tokens.  On these texts the parser below reads what \<open>JSON.parse\<close> reads;
  every other text is reported as unparseable (\<open>None\<close>).  A member that repeats a key
  replaces the value of the earlier one, as in \<open>JSON.parse\<close>.
\<close>

definition isWs :: "char \<Rightarrow> bool" where
  "isWs c = (c = CHR '' '' \<or> c = CHR 0x09 \<or> c = CHR 0x0A \<or> c = CHR 0x0D)"

definition skipWs :: "string \<Rightarrow> string" where
  "skipWs s = dropWhile isWs s"

definition expectChar :: "char \<Rightarrow> string \<Rightarrow> string option" where
  "expectChar c s = (case skipWs s of [] \<Rightarrow> None | x # r \<Rightarrow> if x = c then Some r else None)"

definition hexVal :: "char \<Rightarrow> nat option" where
  "hexVal c =
     (let n = (of_char c :: nat) in
      if 48 \<le> n \<and> n \<le> 57 then Some (n - 48)
      else if 97 \<le> n \<and> n \<le> 102 then Some (n - 87)
      else if 65 \<le> n \<and> n \<le> 70 then Some (n - 55)
      else None)"

definition unescape :: "char \<Rightarrow> char option" where
  "unescape e =
     (if e = dquote then Some dquote
      else if e = backslash then Some backslash
      else if e = CHR ''/'' then Some (CHR ''/'')
      else if e = CHR ''b'' then Some (CHR 0x08)
      else if e = CHR ''t'' then Some (CHR 0x09)
      else if e = CHR ''n'' then Some (CHR 0x0A)
      else if e = CHR ''f'' then Some (CHR 0x0C)
      else if e = CHR ''r'' then Some (CHR 0x0D)
      else None)"

definition consResult :: "'a \<Rightarrow> ('a list \<times> string) option \<Rightarrow> ('a list \<times> string) option" where
  "consResult x r = map_option (\<lambda>(xs, rest). (x # xs, rest)) r"

text \<open>An escape sequence, after its backslash: the character it denotes and the rest.\<close>

definition decodeEscape :: "string \<Rightarrow> (char \<times> string) option" where
  "decodeEscape cs =
     (case cs of
        [] \<Rightarrow> None
      | e # r \<Rightarrow>
          (if e = CHR ''u'' then
             (case r of
                h1 # h2 # h3 # h4 # r' \<Rightarrow>
                  (case (hexVal h1, hexVal h2, hexVal h3, hexVal h4) of
                     (Some a, Some b, Some c, Some d) \<Rightarrow>
                       (if a = 0 \<and> b = 0 then Some (char_of (16 * c + d), r') else None)
                   | _ \<Rightarrow> None)
              | _ \<Rightarrow> None)
           else map_option (\<lambda>x. (x, r)) (unescape e)))"

lemma decodeEscape_shorter: "decodeEscape cs = Some (x, r) \<Longrightarrow> length r < length cs"
  by (auto simp: decodeEscape_def split: list.splits if_splits option.splits)

text \<open>The characters of a string after its opening quote, up to the closing quote.\<close>

function parseStringBody :: "string \<Rightarrow> (string \<times> string) option" where
  "parseStringBody [] = None"
| "parseStringBody (c # cs) =
     (if c = dquote then Some ([], cs)
      else if c = backslash then
        (case decodeEscape cs of
           None \<Rightarrow> None
         | Some (x, r) \<Rightarrow> consResult x (parseStringBody r))
      else if (of_char c :: nat) < 32 then None
      else consResult c (parseStringBody cs))"
  by pat_completeness auto
termination
proof (relation "measure length", goal_cases)
  case (2 c cs p x r)
  from decodeEscape_shorter [of cs x r] 2 show ?case by simp
qed simp_all

definition parseString :: "string \<Rightarrow> (string \<times> string) option" where
  "parseString s = (case expectChar dquote s of None \<Rightarrow> None | Some r \<Rightarrow> parseStringBody r)"

definition isDigit :: "char \<Rightarrow> bool" where
  "isDigit c = (48 \<le> (of_char c :: nat) \<and> (of_char c :: nat) \<le> 57)"

definition digitsVal :: "string \<Rightarrow> nat" where
  "digitsVal ds = foldl (\<lambda>a d. 10 * a + (of_char d - 48)) 0 ds"

text \<open>
  An integer: an optional minus sign and a digit sequence without a leading zero.  A
  fraction or an exponent after the digits makes the number one the cache does not
  hold, and the text unparseable.
\<close>

definition parseNat :: "string \<Rightarrow> (nat \<times> string) option" where
  "parseNat s =
     (let ds = takeWhile isDigit s; rest = dropWhile isDigit s in
      if ds = [] \<or> (hd ds = CHR ''0'' \<and> length ds > 1) then None
      else (case rest of
              [] \<Rightarrow> Some (digitsVal ds, rest)
            | x # _ \<Rightarrow> if x = CHR ''.'' \<or> x = CHR ''e'' \<or> x = CHR ''E'' then None
                       else Some (digitsVal ds, rest)))"

text \<open>What may follow the digits of an integer.\<close>

definition endsNumber :: "string \<Rightarrow> bool" where
  "endsNumber rest =
     (case rest of
        [] \<Rightarrow> True
      | x # _ \<Rightarrow> \<not> isDigit x \<and> x \<noteq> CHR ''.'' \<and> x \<noteq> CHR ''e'' \<and> x \<noteq> CHR ''E'')"

definition parseInt :: "string \<Rightarrow> (int \<times> string) option" where
  "parseInt s =
     (case skipWs s of
        [] \<Rightarrow> None
      | x # r \<Rightarrow>
          if x = CHR ''-'' then map_option (\<lambda>(n, rest). (- int n, rest)) (parseNat r)
          else map_option (\<lambda>(n, rest). (int n, rest)) (parseNat (x # r)))"

text \<open>Every parser consumes input; the loops below terminate for that reason.\<close>

lemma skipWs_length: "length (skipWs s) \<le> length s"
  by (simp add: skipWs_def length_dropWhile_le)

lemma expectChar_shorter: "expectChar c s = Some r \<Longrightarrow> length r < length s"
  using skipWs_length [of s] by (auto simp: expectChar_def split: list.splits if_splits)

lemma parseStringBody_shorter: "parseStringBody s = Some (x, r) \<Longrightarrow> length r < length s"
proof (induction s arbitrary: x r rule: parseStringBody.induct)
  case 1
  then show ?case by simp
next
  case (2 c cs)
  show ?case
  proof (cases "c = dquote")
    case True
    with "2.prems" show ?thesis by simp
  next
    case nq: False
    show ?thesis
    proof (cases "c = backslash")
      case False
      with nq "2.prems" obtain y where "parseStringBody cs = Some (y, r)"
        by (auto simp: consResult_def split: if_splits)
      from "2.IH"(2) [OF nq False _ this] "2.prems" nq False show ?thesis
        by (auto split: if_splits)
    next
      case bs: True
      with nq "2.prems" obtain u t y where d: "decodeEscape cs = Some (u, t)"
        and p: "parseStringBody t = Some (y, r)"
        by (auto simp: consResult_def split: option.splits)
      from "2.IH"(1) [OF nq bs d refl p] decodeEscape_shorter [OF d] show ?thesis by simp
    qed
  qed
qed

lemma parseString_shorter:
  assumes "parseString s = Some (x, r)"
  shows "length r < length s"
proof -
  from assms obtain t where t: "expectChar dquote s = Some t" and b: "parseStringBody t = Some (x, r)"
    by (auto simp: parseString_def split: option.splits)
  from expectChar_shorter [OF t] parseStringBody_shorter [OF b] show ?thesis by simp
qed

text \<open>The elements of a non-empty array of strings, up to the closing bracket.\<close>

function parseElems :: "string \<Rightarrow> (string list \<times> string) option" where
  "parseElems s =
     (case parseString s of
        None \<Rightarrow> None
      | Some (x, r) \<Rightarrow>
          (case skipWs r of
             [] \<Rightarrow> None
           | c # r' \<Rightarrow>
               if c = CHR '','' then consResult x (parseElems r')
               else if c = CHR '']'' then Some ([x], r')
               else None))"
  by pat_completeness auto
termination
proof (relation "measure length", goal_cases)
  case 1
  show ?case by simp
next
  case (2 s p x r c r')
  then have "parseString s = Some (x, r)" by simp
  from parseString_shorter [OF this] skipWs_length [of r] 2(3)
  show ?case by simp
qed

declare parseElems.simps [simp del]

lemma parseElems_shorter: "parseElems s = Some (xs, r) \<Longrightarrow> length r < length s"
proof (induction s arbitrary: xs r rule: parseElems.induct)
  case (1 s)
  from "1.prems" obtain x t where ps: "parseString s = Some (x, t)"
    by (subst (asm) parseElems.simps) (auto split: option.splits)
  from "1.prems" ps obtain c t' where sk: "skipWs t = c # t'"
    by (subst (asm) parseElems.simps) (auto split: list.splits)
  have len: "length t' < length s"
    using parseString_shorter [OF ps] skipWs_length [of t] sk by simp
  show ?case
  proof (cases "c = CHR '',''")
    case True
    with "1.prems" ps sk obtain ys where "parseElems t' = Some (ys, r)"
      by (subst (asm) parseElems.simps) (auto simp: consResult_def)
    from "1.IH" [OF ps refl sk True this] len show ?thesis by simp
  next
    case False
    with "1.prems" ps sk have "r = t'"
      by (subst (asm) parseElems.simps) (auto split: if_splits)
    with len show ?thesis by simp
  qed
qed

definition parseIds :: "string \<Rightarrow> (string list \<times> string) option" where
  "parseIds s =
     (case expectChar (CHR ''['') s of
        None \<Rightarrow> None
      | Some r \<Rightarrow>
          (case expectChar (CHR '']'') r of
             Some r' \<Rightarrow> Some ([], r')
           | None \<Rightarrow> parseElems r))"

definition parseKey :: "string \<Rightarrow> string \<Rightarrow> string option" where
  "parseKey k s =
     (case parseString s of
        None \<Rightarrow> None
      | Some (k', r) \<Rightarrow> if k' = k then expectChar (CHR '':'') r else None)"

definition parseEntry :: "string \<Rightarrow> (cacheEntry \<times> string) option" where
  "parseEntry s =
     Option.bind (expectChar (CHR ''{'') s) (\<lambda>r1.
     Option.bind (parseKey ''contentHash'' r1) (\<lambda>r2.
     Option.bind (parseString r2) (\<lambda>(h, r3).
     Option.bind (expectChar (CHR '','') r3) (\<lambda>r4.
     Option.bind (parseKey ''vectorIds'' r4) (\<lambda>r5.
     Option.bind (parseIds r5) (\<lambda>(ids, r6).
     Option.bind (expectChar (CHR '','') r6) (\<lambda>r7.
     Option.bind (parseKey ''modifiedTime'' r7) (\<lambda>r8.
     Option.bind (parseInt r8) (\<lambda>(m, r9).
     Option.bind (expectChar (CHR ''}'') r9) (\<lambda>r10.
       Some (\<lparr> contentHash = h, vectorIds = ids, modifiedTime = m \<rparr>, r10)))))))))))"

lemma parseIds_shorter: "parseIds s = Some (xs, r) \<Longrightarrow> length r < length s"
proof -
  assume a: "parseIds s = Some (xs, r)"
  then obtain t where t: "expectChar (CHR ''['') s = Some t"
    by (auto simp: parseIds_def split: option.splits)
  show ?thesis
  proof (cases "expectChar (CHR '']'') t")
    case None
    with a t have "parseElems t = Some (xs, r)" by (simp add: parseIds_def)
    from parseElems_shorter [OF this] expectChar_shorter [OF t] show ?thesis by simp
  next
    case (Some t')
    with a t have "r = t'" by (simp add: parseIds_def)
    with expectChar_shorter [OF t] expectChar_shorter [OF Some] show ?thesis by simp
  qed
qed

lemma parseKey_shorter: "parseKey k s = Some r \<Longrightarrow> length r < length s"
proof -
  assume a: "parseKey k s = Some r"
  then obtain k' t where t: "parseString s = Some (k', t)" and e: "expectChar (CHR '':'') t = Some r"
    by (auto simp: parseKey_def split: option.splits if_splits)
  from parseString_shorter [OF t] expectChar_shorter [OF e] show ?thesis by simp
qed

lemma parseNat_shorter: "parseNat s = Some (n, r) \<Longrightarrow> length r \<le> length s"
  by (auto simp: parseNat_def Let_def length_dropWhile_le split: if_splits list.splits)

lemma parseInt_shorter: "parseInt s = Some (n, r) \<Longrightarrow> length r \<le> length s"
proof -
  assume a: "parseInt s = Some (n, r)"
  then obtain x t where sk: "skipWs s = x # t"
    by (auto simp: parseInt_def split: list.splits)
  from a sk obtain m u where "parseNat u = Some (m, r)" and "u = t \<or> u = x # t"
    by (auto simp: parseInt_def split: if_splits)
  with parseNat_shorter [of u m r] skipWs_length [of s] sk show ?thesis by auto
qed

lemma parseEntry_Some:
  assumes "parseEntry s = Some (e, r)"
  obtains r1 r2 r3 r4 r5 r6 r7 r8 r9 where
    "expectChar (CHR ''{'') s = Some r1" "parseKey ''contentHash'' r1 = Some r2"
    "parseString r2 = Some (contentHash e, r3)" "expectChar (CHR '','') r3 = Some r4"
    "parseKey ''vectorIds'' r4 = Some r5" "parseIds r5 = Some (vectorIds e, r6)"
    "expectChar (CHR '','') r6 = Some r7" "parseKey ''modifiedTime'' r7 = Some r8"
    "parseInt r8 = Some (modifiedTime e, r9)" "expectChar (CHR ''}'') r9 = Some r"
  using assms by (auto simp: parseEntry_def bind_eq_Some_conv)

lemma parseEntry_shorter:
  assumes "parseEntry s = Some (e, r)"
  shows "length r < length s"
  using assms
proof (rule parseEntry_Some)
  fix r1 r2 r3 r4 r5 r6 r7 r8 r9
  assume f: "expectChar (CHR ''{'') s = Some r1" "parseKey ''contentHash'' r1 = Some r2"
    "parseString r2 = Some (contentHash e, r3)" "expectChar (CHR '','') r3 = Some r4"
    "parseKey ''vectorIds'' r4 = Some r5" "parseIds r5 = Some (vectorIds e, r6)"
    "expectChar (CHR '','') r6 = Some r7" "parseKey ''modifiedTime'' r7 = Some r8"
    "parseInt r8 = Some (modifiedTime e, r9)" "expectChar (CHR ''}'') r9 = Some r"
  from expectChar_shorter [OF f(1)] parseKey_shorter [OF f(2)] parseString_shorter [OF f(3)]
    expectChar_shorter [OF f(4)] parseKey_shorter [OF f(5)] parseIds_shorter [OF f(6)]
    expectChar_shorter [OF f(7)] parseKey_shorter [OF f(8)] parseInt_shorter [OF f(9)]
    expectChar_shorter [OF f(10)]
  show ?thesis by linarith
qed

text \<open>The members of a non-empty cache object, up to the closing brace.\<close>

function parseMembers :: "string \<Rightarrow> (cache \<times> string) option" where
  "parseMembers s =
     (case parseString s of
        None \<Rightarrow> None
      | Some (k, r) \<Rightarrow>
          (case expectChar (CHR '':'') r of
             None \<Rightarrow> None
           | Some r1 \<Rightarrow>
               (case parseEntry r1 of
                  None \<Rightarrow> None
                | Some (e, r2) \<Rightarrow>
                    (case skipWs r2 of
                       [] \<Rightarrow> None
                     | c # r3 \<Rightarrow>
                         if c = CHR '','' then consResult (k, e) (parseMembers r3)
                         else if c = CHR ''}'' then Some ([(k, e)], r3)
                         else None))))"
  by pat_completeness auto
termination
proof (relation "measure length", goal_cases)
  case 1
  show ?case by simp
next
  case (2 s p k r r1 q e r2 c r3)
  have "length r < length s" using parseString_shorter 2(1,2) by auto
  moreover have "length r1 < length r" using expectChar_shorter 2(3) by auto
  moreover have "length r2 < length r1" using parseEntry_shorter 2(4,5) by auto
  moreover have "length r3 < length r2" using skipWs_length [of r2] 2(6) by simp
  ultimately show ?case by simp
qed

declare parseMembers.simps [simp del]

definition parseCache :: "string \<Rightarrow> cache option" where
  "parseCache s =
     (case expectChar (CHR ''{'') s of
        None \<Rightarrow> None
      | Some r \<Rightarrow>
          (case expectChar (CHR ''}'') r of
             Some r' \<Rightarrow> if skipWs r' = [] then Some [] else None
           | None \<Rightarrow>
               (case parseMembers r of
                  None \<Rightarrow> None
                | Some (ms, r') \<Rightarrow>
                    if skipWs r' = [] then Some (foldl (\<lambda>obj (k, e). AList.update k e obj) [] ms)
                    else None)))"

section \<open>The world: disk, clock, vector index\<close>

text \<open>
  Everything the ingestion code reads and writes outside its own variables.  The disk
  is a map from paths to the content and modification time of regular files, and a set
  of directories; paths are compared as written.  The only disk failure modelled is a
  missing file (\<open>ENOENT\<close>); write errors and permission errors are not.  The clock
  advances only where the code sleeps.  \<open>requests\<close> counts the embedding requests made.

  The vector index (\<open>globalVectorStore\<close>, a \<open>LocalIndex\<close> of the vectra library) is held
  by its contract: the list of stored items in insertion order, whether the index has
  been created, and whether an update is open.

  \<open>operationCount\<close> is the counter of the store module.  The timer that sets it back to
  zero once a day is left out: the counter only decides whether \<open>optimizeVectorStore\<close>
  runs, and the statements about \<open>storeChunks\<close> cover both outcomes of that test.
\<close>

datatype mval = MStr string | MNum int

record vectorRecord =
  itemId :: string
  vector :: "real list"
  metadata :: "(string \<times> mval) list"

record world =
  files :: "string \<rightharpoonup> string \<times> int"
  dirs :: "string set"
  now :: int
  requests :: nat
  indexCreated :: bool
  updating :: bool
  items :: "vectorRecord list"
  vectorStoreLock :: bool
  vectorStoreLockTimeout :: "int option"
  operationCount :: nat
  lastBackupTime :: int

text \<open>
  A JavaScript number as far as the code compares one: not-a-number, a finite value, or
  an infinity.  Finite values are exact; the rounding of doubles is not modelled.
\<close>

datatype jsnum = NaN | Number real | PlusInfinity | MinusInfinity

text \<open>
  What the program is given: the hash function, the embedding backend, the working
  directory, the nearest-neighbour query of the index library (\<open>queryItems\<close>: from
  the stored items, the query vector, the query text and the number of candidates to
  the scored items, or a thrown error), the conversion of a string to a number that
  the language applies to a string operand of an arithmetic operator (\<open>toNumber\<close>), and
  the library's \<open>path.relative\<close> (\<open>pathRelative\<close>: from a base directory and a path
  to the path as seen from the base).
\<close>

record env =
  sha256 :: "string \<Rightarrow> string"
  ollama :: backend
  cwd :: string
  queryItems :: "vectorRecord list \<Rightarrow> real list \<Rightarrow> string \<Rightarrow> nat \<Rightarrow> error + (vectorRecord \<times> real) list"
  toNumber :: "string \<Rightarrow> jsnum"
  pathRelative :: "string \<Rightarrow> string \<Rightarrow> string"

subsection \<open>\<open>fs/promises\<close>\<close>

definition enoent :: "string \<Rightarrow> error" where
  "enoent p = ErrnoError ''ENOENT'' (''ENOENT: no such file or directory, '' @ p)"

definition readFile :: "string \<Rightarrow> world \<Rightarrow> error + string" where
  "readFile p w = (case files w p of None \<Rightarrow> Inl (enoent p) | Some (d, t) \<Rightarrow> Inr d)"

definition stat :: "string \<Rightarrow> world \<Rightarrow> error + int" where
  "stat p w = (case files w p of None \<Rightarrow> Inl (enoent p) | Some (d, t) \<Rightarrow> Inr t)"

definition writeFile :: "string \<Rightarrow> string \<Rightarrow> world \<Rightarrow> world" where
  "writeFile p d w = w\<lparr> files := (files w)(p \<mapsto> (d, now w)) \<rparr>"

definition rename :: "string \<Rightarrow> string \<Rightarrow> world \<Rightarrow> (error + unit) \<times> world" where
  "rename a b w =
     (case files w a of
        None \<Rightarrow> (Inl (enoent a), w)
      | Some f \<Rightarrow> (Inr (), w\<lparr> files := ((files w)(a := None))(b \<mapsto> f) \<rparr>))"

definition unlink :: "string \<Rightarrow> world \<Rightarrow> (error + unit) \<times> world" where
  "unlink p w =
     (case files w p of
        None \<Rightarrow> (Inl (enoent p), w)
      | Some f \<Rightarrow> (Inr (), w\<lparr> files := (files w)(p := None) \<rparr>))"

definition mkdir :: "string \<Rightarrow> world \<Rightarrow> world" where
  "mkdir p w = w\<lparr> dirs := insert p (dirs w) \<rparr>"

text \<open>\<open>access(p)\<close> resolves when \<open>p\<close> names a file or a directory.\<close>

definition access :: "string \<Rightarrow> world \<Rightarrow> bool" where
  "access p w = (files w p \<noteq> None \<or> p \<in> dirs w)"

subsection \<open>\<open>saveCache\<close> and \<open>loadCache\<close>\<close>

text \<open>
  The cooperative \<open>cacheLock\<close> is set on entry and cleared in \<open>finally\<close>; between two
  calls it is clear, so the wait loop at entry does not spin and the flag is left out.
  \<open>VECTOR_STORE_DIR\<close> is \<open>resolve(process.cwd(), "db")\<close>; the model writes the paths of
  the store as seen from the working directory.
\<close>

definition VECTOR_STORE_DIR :: string where "VECTOR_STORE_DIR = ''db''"
definition CACHE_FILE_PATH :: string where "CACHE_FILE_PATH = ''.cache.json''"

definition saveCache :: "cache \<Rightarrow> world \<Rightarrow> (error + unit) \<times> world" where
  "saveCache c w =
     (let w0 = mkdir VECTOR_STORE_DIR w;
          tempPath = CACHE_FILE_PATH @ ''.tmp'';
          backupPath = CACHE_FILE_PATH @ ''.bak'';
          cacheData = stringifyCache c;
          restore = (\<lambda>e w'. (Inl e, snd (rename backupPath CACHE_FILE_PATH w')));
          w1 = writeFile tempPath cacheData w0
      in case readFile tempPath w1 of
           Inl e \<Rightarrow> restore e w1
         | Inr writtenData \<Rightarrow>
             if writtenData \<noteq> cacheData
             then restore (Error ''Cache verification failed: written data doesn't match'') w1
             else
               (let w2 = snd (rename CACHE_FILE_PATH backupPath w1)
                in case rename tempPath CACHE_FILE_PATH w2 of
                     (Inl e, w3) \<Rightarrow> restore e w3
                   | (Inr u, w3) \<Rightarrow> (Inr (), snd (unlink backupPath w3))))"

definition loadCache :: "world \<Rightarrow> (error + cache) \<times> world" where
  "loadCache w =
     (let w0 = mkdir VECTOR_STORE_DIR w
      in case readFile CACHE_FILE_PATH w0 of
           Inl e \<Rightarrow>
             (case e of
                ErrnoError code m \<Rightarrow> if code = ''ENOENT'' then (Inr [], w0) else (Inl e, w0)
              | _ \<Rightarrow> (Inl e, w0))
         | Inr data \<Rightarrow>
             (case parseCache data of
                None \<Rightarrow> (Inl (Error ''Unexpected token in JSON''), w0)
              | Some c \<Rightarrow> (Inr c, w0)))"

text \<open>The files after a \<open>saveCache\<close>: the cache file holds the text, the two side files are gone.\<close>

definition savedFiles :: "cache \<Rightarrow> world \<Rightarrow> (string \<rightharpoonup> string \<times> int)" where
  "savedFiles c w =
     (files w)(CACHE_FILE_PATH @ ''.tmp'' := None, CACHE_FILE_PATH @ ''.bak'' := None,
               CACHE_FILE_PATH \<mapsto> (stringifyCache c, now w))"

subsection \<open>The vector index\<close>

definition createIndex :: "world \<Rightarrow> (error + unit) \<times> world" where
  "createIndex w =
     (if indexCreated w then (Inl (Error ''Index already exists''), w)
      else (Inr (), w\<lparr> indexCreated := True, items := [] \<rparr>))"

definition deleteIndex :: "world \<Rightarrow> world" where
  "deleteIndex w = w\<lparr> indexCreated := False, items := [] \<rparr>"

definition beginUpdate :: "world \<Rightarrow> (error + unit) \<times> world" where
  "beginUpdate w =
     (if updating w then (Inl (Error ''Update already in progress''), w)
      else if \<not> indexCreated w then (Inl (Error ''Index does not exist''), w)
      else (Inr (), w\<lparr> updating := True \<rparr>))"

definition endUpdate :: "world \<Rightarrow> (error + unit) \<times> world" where
  "endUpdate w =
     (if \<not> updating w then (Inl (Error ''No update in progress''), w)
      else (Inr (), w\<lparr> updating := False \<rparr>))"

definition listItems :: "world \<Rightarrow> error + vectorRecord list" where
  "listItems w = (if indexCreated w then Inr (items w) else Inl (Error ''Index does not exist''))"

definition getItem :: "string \<Rightarrow> world \<Rightarrow> error + vectorRecord option" where
  "getItem i w =
     (if indexCreated w then Inr (find (\<lambda>r. itemId r = i) (items w))
      else Inl (Error ''Index does not exist''))"

text \<open>\<open>deleteItem\<close> removes the first item with the id, if there is one.\<close>

fun removeItem :: "string \<Rightarrow> vectorRecord list \<Rightarrow> vectorRecord list" where
  "removeItem i [] = []"
| "removeItem i (r # rs) = (if itemId r = i then rs else r # removeItem i rs)"

definition deleteItem :: "string \<Rightarrow> world \<Rightarrow> (error + unit) \<times> world" where
  "deleteItem i w =
     (if indexCreated w then (Inr (), w\<lparr> items := removeItem i (items w) \<rparr>)
      else (Inl (Error ''Index does not exist''), w))"

definition insertItem :: "vectorRecord \<Rightarrow> world \<Rightarrow> (error + unit) \<times> world" where
  "insertItem r w =
     (if \<not> indexCreated w then (Inl (Error ''Index does not exist''), w)
      else if find (\<lambda>x. itemId x = itemId r) (items w) \<noteq> None
        then (Inl (Error (''Item with id '' @ itemId r @ '' already exists'')), w)
      else (Inr (), w\<lparr> items := items w @ [r] \<rparr>))"

subsection \<open>The vector store lock\<close>

text \<open>
  \<open>setTimeout(resolve, d)\<close>: the clock advances by \<open>d\<close>, and the auto-release timer of
  the lock fires if it is due.  The code keeps one timer; a new one is set only when
  the lock is free, that is, after the previous one fired or was cleared.
\<close>

definition sleep :: "int \<Rightarrow> world \<Rightarrow> world" where
  "sleep d w =
     (let t = now w + d in
      case vectorStoreLockTimeout w of
        None \<Rightarrow> w\<lparr> now := t \<rparr>
      | Some due \<Rightarrow>
          if due \<le> t
          then w\<lparr> now := t, vectorStoreLock := False, vectorStoreLockTimeout := None \<rparr>
          else w\<lparr> now := t \<rparr>)"

function acquireLoop :: "int \<Rightarrow> int \<Rightarrow> world \<Rightarrow> bool \<times> world" where
  "acquireLoop timeout start w =
     (if vectorStoreLock w then
        (if now w - start > timeout then (False, w)
         else acquireLoop timeout start (sleep 100 w))
      else (True, w\<lparr> vectorStoreLock := True, vectorStoreLockTimeout := Some (now w + timeout) \<rparr>))"
  by pat_completeness auto
termination
  by (relation "measure (\<lambda>(timeout, start, w). nat (timeout - (now w - start) + 100))")
     (auto simp: sleep_def Let_def split: option.splits)

declare acquireLoop.simps [simp del]

definition acquireLock :: "world \<Rightarrow> bool \<times> world" where
  "acquireLock w = acquireLoop 5000 (now w) w"

definition releaseLock :: "world \<Rightarrow> world" where
  "releaseLock w = w\<lparr> vectorStoreLockTimeout := None, vectorStoreLock := False \<rparr>"

definition lockError :: error where
  "lockError = Error ''Failed to acquire vector store lock within timeout''"

section \<open>Vector store management\<close>

text \<open>Sequencing of steps that may throw: the first error ends the sequence.\<close>

definition bindW :: "(error + 'a) \<times> world \<Rightarrow> ('a \<Rightarrow> world \<Rightarrow> (error + 'b) \<times> world) \<Rightarrow> (error + 'b) \<times> world" where
  "bindW m f = (case m of (Inl e, w) \<Rightarrow> (Inl e, w) | (Inr a, w) \<Rightarrow> f a w)"

definition maxOrphanedAge :: int where "maxOrphanedAge = 1 * 24 * 60 * 60 * 1000"
definition optimizationThreshold :: nat where "optimizationThreshold = 100000"
definition backupInterval :: int where "backupInterval = 24 * 60 * 60 * 1000"
definition TEXT_FILES_DIR :: string where "TEXT_FILES_DIR = VECTOR_STORE_DIR @ ''/text_files''"

definition getAllVectorIds :: "world \<Rightarrow> (error + string list) \<times> world" where
  "getAllVectorIds w =
     bindW (loadCache w) (\<lambda>c w'. (Inr (concat (map (\<lambda>(k, entry). vectorIds entry) c)), w'))"

subsection \<open>\<open>cleanupOrphanedVectors\<close>\<close>

text \<open>
  \<open>metadata.modifiedTime ?? now\<close>: the value stored under the key, whatever its type,
  and the current time only when the key is absent.
\<close>

definition modifiedTimeOr :: "(string \<times> mval) list \<Rightarrow> int \<Rightarrow> mval" where
  "modifiedTimeOr md d = (case map_of md ''modifiedTime'' of Some v \<Rightarrow> v | None \<Rightarrow> MNum d)"

text \<open>
  \<open>now - modifiedTime\<close> converts its right operand to a number: a number is itself, a
  string is converted by the language.  \<open>vectorAge < maxOrphanedAge\<close> is false for
  not-a-number.
\<close>

fun toNumberOf :: "env \<Rightarrow> mval \<Rightarrow> jsnum" where
  "toNumberOf en (MNum m) = Number (real_of_int m)"
| "toNumberOf en (MStr s) = toNumber en s"

fun jsMinus :: "int \<Rightarrow> jsnum \<Rightarrow> jsnum" where
  "jsMinus n NaN = NaN"
| "jsMinus n (Number x) = Number (real_of_int n - x)"
| "jsMinus n PlusInfinity = MinusInfinity"
| "jsMinus n MinusInfinity = PlusInfinity"

fun jsLess :: "jsnum \<Rightarrow> int \<Rightarrow> bool" where
  "jsLess NaN m = False"
| "jsLess (Number x) m = (x < real_of_int m)"
| "jsLess PlusInfinity m = False"
| "jsLess MinusInfinity m = True"

text \<open>The loop over \<open>allVectors\<close>; \<open>nowMs\<close> is the \<open>Date.now()\<close> read before the loop.\<close>

fun cleanupLoop :: "env \<Rightarrow> string list \<Rightarrow> int \<Rightarrow> vectorRecord list \<Rightarrow> world \<Rightarrow> (error + unit) \<times> world" where
  "cleanupLoop en cacheIds nowMs [] w = (Inr (), w)"
| "cleanupLoop en cacheIds nowMs (v # vs) w =
     (if itemId v \<in> set cacheIds then cleanupLoop en cacheIds nowMs vs w
      else
        (let filePath = hd (split (itemId v) ''::'') in
         if access filePath w then cleanupLoop en cacheIds nowMs vs w
         else
           (let modifiedTime = modifiedTimeOr (metadata v) nowMs;
                vectorAge = jsMinus nowMs (toNumberOf en modifiedTime)
            in if jsLess vectorAge maxOrphanedAge then cleanupLoop en cacheIds nowMs vs w
               else bindW (deleteItem (itemId v) w) (\<lambda>u w'. cleanupLoop en cacheIds nowMs vs w'))))"

definition cleanupOrphanedVectors :: "env \<Rightarrow> world \<Rightarrow> (error + unit) \<times> world" where
  "cleanupOrphanedVectors en w =
     (case acquireLock w of
        (False, w1) \<Rightarrow> (Inl lockError, w1)
      | (True, w1) \<Rightarrow>
          (case bindW (getAllVectorIds w1) (\<lambda>cacheIds w2.
                  case listItems w2 of
                    Inl e \<Rightarrow> (Inl e, w2)
                  | Inr allVectors \<Rightarrow> cleanupLoop en cacheIds (now w2) allVectors w2)
           of (r, w3) \<Rightarrow> (r, releaseLock w3)))"

subsection \<open>\<open>optimizeVectorStore\<close> and \<open>backupVectorStore\<close>\<close>

fun reinsertLoop :: "vectorRecord list \<Rightarrow> world \<Rightarrow> (error + unit) \<times> world" where
  "reinsertLoop [] w = (Inr (), w)"
| "reinsertLoop (v # vs) w =
     bindW (insertItem \<lparr> itemId = itemId v, vector = vector v, metadata = metadata v \<rparr> w)
       (\<lambda>u w'. reinsertLoop vs w')"

definition optimizeVectorStore :: "world \<Rightarrow> (error + unit) \<times> world" where
  "optimizeVectorStore w =
     (case acquireLock w of
        (False, w1) \<Rightarrow> (Inl lockError, w1)
      | (True, w1) \<Rightarrow>
          (case bindW (beginUpdate w1) (\<lambda>u w2.
                  case listItems w2 of
                    Inl e \<Rightarrow> (Inl e, w2)
                  | Inr allVectors \<Rightarrow>
                      bindW (createIndex (deleteIndex w2)) (\<lambda>u w3.
                      bindW (reinsertLoop allVectors w3) (\<lambda>u w4.
                      bindW (endUpdate w4) (\<lambda>u w5. (Inr (), w5\<lparr> operationCount := 0 \<rparr>)))))
           of (r, w6) \<Rightarrow> (r, releaseLock w6)))"

text \<open>
  \<open>backupVectorStore\<close> never throws.  The snapshot it writes below \<open>db/backups\<close> and the
  pruning of old snapshots touch no file that any other function reads; of its effects
  the model keeps the rate limit, the two reads, and \<open>lastBackupTime\<close>.
\<close>

definition backupVectorStore :: "world \<Rightarrow> world" where
  "backupVectorStore w =
     (if now w - lastBackupTime w < backupInterval then w
      else
        (case loadCache w of
           (Inl e, w1) \<Rightarrow> w1
         | (Inr c, w1) \<Rightarrow>
             (case listItems w1 of
                Inl e \<Rightarrow> w1
              | Inr allVectors \<Rightarrow> w1\<lparr> lastBackupTime := now w \<rparr>)))"

subsection \<open>\<open>storeChunks\<close>\<close>

definition normalizePathForStorage :: "string \<Rightarrow> string" where
  "normalizePathForStorage path =
     map (\<lambda>c. if c = CHR 0x5C \<or> c = CHR ''/'' \<or> c = CHR '':'' then CHR ''_'' else c)
         (replaceFirst path ''vault/'' '''')"

text \<open>
  \<open>`${relativePath}::${index}`\<close>, with \<open>relativePath = relative(process.cwd(), filePath)\<close>.
\<close>

definition chunkIdOf :: "env \<Rightarrow> string \<Rightarrow> nat \<Rightarrow> string" where
  "chunkIdOf en filePath index = pathRelative en (cwd en) filePath @ ''::'' @ showNat index"

definition vectorDataOf :: "string \<Rightarrow> embedded \<Rightarrow> vectorRecord" where
  "vectorDataOf chunkId chunk =
     \<lparr> itemId = chunkId, vector = embedding chunk,
       metadata = [(''documentId'', MStr (''text_files/'' @ normalizePathForStorage chunkId))] \<rparr>"

text \<open>The body of the loop over \<open>embeddedChunks.entries()\<close>, for one \<open>[index, chunk]\<close>.\<close>

definition storeOne :: "env \<Rightarrow> string \<Rightarrow> nat \<Rightarrow> embedded \<Rightarrow> world \<Rightarrow> (error + string) \<times> world" where
  "storeOne en filePath index chunk w =
     (let chunkId = chunkIdOf en filePath index;
          textContent = chunkText chunk;
          sanitizedPath = normalizePathForStorage chunkId;
          textFilePath = TEXT_FILES_DIR @ ''/'' @ sanitizedPath @ ''.txt'';
          w1 = writeFile textFilePath textContent w;
          vectorData = vectorDataOf chunkId chunk
      in case getItem chunkId w1 of
           Inl e \<Rightarrow> (Inl e, w1)
         | Inr existingVector \<Rightarrow>
             bindW (if existingVector \<noteq> None
                    then bindW (deleteItem chunkId w1) (\<lambda>u w2. insertItem vectorData w2)
                    else insertItem vectorData w1)
               (\<lambda>u w3. (Inr chunkId, w3\<lparr> operationCount := operationCount w3 + 1 \<rparr>)))"

fun storeLoop :: "env \<Rightarrow> string \<Rightarrow> nat \<Rightarrow> embedded list \<Rightarrow> string list \<Rightarrow> world
    \<Rightarrow> (error + string list) \<times> world" where
  "storeLoop en filePath index [] generatedIds w = (Inr generatedIds, w)"
| "storeLoop en filePath index (chunk # rest) generatedIds w =
     bindW (storeOne en filePath index chunk w)
       (\<lambda>chunkId w'. storeLoop en filePath (Suc index) rest (generatedIds @ [chunkId]) w')"

text \<open>
  The inner \<open>try\<close> with its \<open>finally\<close>: delete what the index holds under the path
  prefix (a failed deletion is only logged), wait, insert, and end the update whatever
  happened; an error of \<open>endUpdate\<close> replaces the outcome.
\<close>

definition storeUpdate :: "env \<Rightarrow> string \<Rightarrow> embedded list \<Rightarrow> world \<Rightarrow> (error + string list) \<times> world" where
  "storeUpdate en filePath embeddedChunks w =
     (case bindW (beginUpdate w) (\<lambda>u w1.
             case listItems w1 of
               Inl e \<Rightarrow> (Inl e, w1)
             | Inr existingVectors \<Rightarrow>
                 (let existingIds =
                        remdups (map itemId (filter (\<lambda>v. startsWith (itemId v) filePath) existingVectors));
                      w2 = foldl (\<lambda>w' i. snd (deleteItem i w')) w1 existingIds;
                      w3 = sleep 100 w2
                  in storeLoop en filePath 0 embeddedChunks [] w3))
      of (r, w4) \<Rightarrow>
        (case endUpdate w4 of
           (Inl e, w5) \<Rightarrow> (Inl e, w5)
         | (Inr u, w5) \<Rightarrow> (r, w5)))"

definition storeChunks :: "env \<Rightarrow> string \<Rightarrow> embedded list \<Rightarrow> world \<Rightarrow> (error + string list) \<times> world" where
  "storeChunks en filePath embeddedChunks w =
     (case acquireLock w of
        (False, w1) \<Rightarrow> (Inl lockError, w1)
      | (True, w1) \<Rightarrow>
          (case
             (let w2 = mkdir TEXT_FILES_DIR (mkdir VECTOR_STORE_DIR w1) in
              bindW (if \<not> indexCreated w2 then createIndex w2 else (Inr (), w2)) (\<lambda>u w3.
              bindW (storeUpdate en filePath embeddedChunks w3) (\<lambda>generatedIds w4.
              bindW (if optimizationThreshold \<le> operationCount w4 then optimizeVectorStore w4
                     else (Inr (), w4)) (\<lambda>u w5.
              bindW (cleanupOrphanedVectors en (backupVectorStore w5)) (\<lambda>u w6.
                (Inr generatedIds, w6))))))
           of (r, w7) \<Rightarrow> (r, releaseLock w7)))"

subsection \<open>Vocabulary for statements about the store\<close>

text \<open>
  \<open>sameData w w'\<close>: the two worlds differ at most in the clock and in the lock.
  \<open>agedOut en nowMs v\<close>: the record carries a modification time whose distance to
  \<open>nowMs\<close> meets or exceeds the threshold, or one that is not a number at all; a record
  without a modification time has not aged out.
  \<open>orphanDue en cacheIds w nowMs v\<close>: the record is in no cache entry, the path before
  the \<open>::\<close> of its id names nothing on the disk of \<open>w\<close>, and it has aged out.
\<close>

definition sameData :: "world \<Rightarrow> world \<Rightarrow> bool" where
  "sameData w w' =
     (files w' = files w \<and> dirs w' = dirs w \<and> requests w' = requests w \<and>
      indexCreated w' = indexCreated w \<and> updating w' = updating w \<and> items w' = items w \<and>
      operationCount w' = operationCount w \<and> lastBackupTime w' = lastBackupTime w)"

definition agedOut :: "env \<Rightarrow> int \<Rightarrow> vectorRecord \<Rightarrow> bool" where
  "agedOut en nowMs v =
     (case map_of (metadata v) ''modifiedTime'' of
        None \<Rightarrow> False
      | Some (MNum m) \<Rightarrow> maxOrphanedAge \<le> nowMs - m
      | Some (MStr s) \<Rightarrow>
          (case toNumber en s of
             NaN \<Rightarrow> True
           | Number x \<Rightarrow> real_of_int maxOrphanedAge \<le> real_of_int nowMs - x
           | PlusInfinity \<Rightarrow> False
           | MinusInfinity \<Rightarrow> True))"

definition orphanDue :: "env \<Rightarrow> string list \<Rightarrow> world \<Rightarrow> int \<Rightarrow> vectorRecord \<Rightarrow> bool" where
  "orphanDue en cacheIds w nowMs v =
     (itemId v \<notin> set cacheIds \<and> \<not> access (hd (split (itemId v) ''::'')) w \<and> agedOut en nowMs v)"

text \<open>
  The side file and the metadata that \<open>storeChunks\<close> gives to the record with id \<open>chunkId\<close>.
\<close>

definition textFileOf :: "string \<Rightarrow> string" where
  "textFileOf chunkId = TEXT_FILES_DIR @ ''/'' @ normalizePathForStorage chunkId @ ''.txt''"

definition docMeta :: "string \<Rightarrow> (string \<times> mval) list" where
  "docMeta chunkId = [(''documentId'', MStr (''text_files/'' @ normalizePathForStorage chunkId))]"

text \<open>
  \<open>storedAs en fp k chunks w w'\<close>: world \<open>w'\<close> is \<open>w\<close> after the chunks have been stored
  under the indices \<open>k\<close>, \<open>k + 1\<close>, ...: the index holds, under the id of index \<open>k + j\<close>,
  the record made from the \<open>j\<close>-th chunk and no other record; the records with other ids
  are those of \<open>w\<close>; the side file of index \<open>k + j\<close> holds the text of the \<open>j\<close>-th chunk;
  no other file has changed.
\<close>

definition storedAs :: "env \<Rightarrow> string \<Rightarrow> nat \<Rightarrow> embedded list \<Rightarrow> world \<Rightarrow> world \<Rightarrow> bool" where
  "storedAs en fp k chunkList w w' =
     ((\<forall>j < length chunkList.
         vectorDataOf (chunkIdOf en fp (k + j)) (chunkList ! j) \<in> set (items w')) \<and>
      (\<forall>r \<in> set (items w'). \<forall>j < length chunkList.
         itemId r = chunkIdOf en fp (k + j) \<longrightarrow> r = vectorDataOf (itemId r) (chunkList ! j)) \<and>
      (\<forall>r. itemId r \<notin> chunkIdOf en fp ` {k..<k + length chunkList} \<longrightarrow>
         (r \<in> set (items w') \<longleftrightarrow> r \<in> set (items w))) \<and>
      (\<forall>j < length chunkList.
         files w' (textFileOf (chunkIdOf en fp (k + j))) = Some (chunkText (chunkList ! j), now w)) \<and>
      (\<forall>p. p \<notin> textFileOf ` chunkIdOf en fp ` {k..<k + length chunkList} \<longrightarrow> files w' p = files w p) \<and>
      dirs w' = dirs w \<and> now w' = now w \<and> indexCreated w' = indexCreated w \<and>
      updating w' = updating w \<and> requests w' = requests w \<and>
      lastBackupTime w' = lastBackupTime w \<and> vectorStoreLock w' = vectorStoreLock w \<and>
      vectorStoreLockTimeout w' = vectorStoreLockTimeout w \<and>
      operationCount w' = operationCount w + length chunkList)"

text \<open>
  \<open>holdsChunks en fp chunks w\<close>: the index of \<open>w\<close> holds, under the id of index \<open>j\<close>, the
  record made from the \<open>j\<close>-th chunk and no other record, and the side file of index
  \<open>j\<close> holds the text of the \<open>j\<close>-th chunk.
  \<open>indexKept w w'\<close>: the files are the same, the index has gained no record, and it has
  lost no record whose id is carried only by records without a modification time.
\<close>

definition holdsChunks :: "env \<Rightarrow> string \<Rightarrow> embedded list \<Rightarrow> world \<Rightarrow> bool" where
  "holdsChunks en fp chunkList w =
     ((\<forall>j < length chunkList.
         vectorDataOf (chunkIdOf en fp j) (chunkList ! j) \<in> set (items w)) \<and>
      (\<forall>r \<in> set (items w). \<forall>j < length chunkList.
         itemId r = chunkIdOf en fp j \<longrightarrow> r = vectorDataOf (itemId r) (chunkList ! j)) \<and>
      (\<forall>j < length chunkList. \<exists>t.
         files w (textFileOf (chunkIdOf en fp j)) = Some (chunkText (chunkList ! j), t)))"

definition indexKept :: "world \<Rightarrow> world \<Rightarrow> bool" where
  "indexKept w w' =
     (files w' = files w \<and> set (items w') \<subseteq> set (items w) \<and>
      (\<forall>r \<in> set (items w).
         (\<forall>v \<in> set (items w). itemId v = itemId r \<longrightarrow> map_of (metadata v) ''modifiedTime'' = None)
         \<longrightarrow> r \<in> set (items w')))"

section \<open>File processing\<close>

subsection \<open>\<open>processFile\<close> and \<open>deleteFile\<close>\<close>

text \<open>
  The last part of \<open>processFile\<close>: chunk, embed, store, record in the cache.  An error
  of \<open>saveCache\<close> is caught and logged.  \<open>embedChunks\<close> may never return, and then
  neither does \<open>processFile\<close> (\<open>None\<close>).
\<close>

definition indexContent :: "env \<Rightarrow> string \<Rightarrow> string \<Rightarrow> string \<Rightarrow> int \<Rightarrow> cache \<Rightarrow> world
    \<Rightarrow> ((error + unit) \<times> world) option" where
  "indexContent en filePath fileContent hash mtimeMs cache0 w =
     (case embedChunks (ollama en) (chunkFile filePath fileContent) (requests w) of
        None \<Rightarrow> None
      | Some (embeddings, n) \<Rightarrow>
          (case storeChunks en filePath embeddings (w\<lparr> requests := n \<rparr>) of
             (Inl e, w1) \<Rightarrow> Some (Inl e, w1)
           | (Inr ids, w1) \<Rightarrow>
               Some (Inr (),
                 snd (saveCache
                        (AList.update filePath
                           \<lparr> contentHash = hash, vectorIds = ids, modifiedTime = mtimeMs \<rparr> cache0)
                        w1))))"

text \<open>
  \<open>processFile\<close>.  A cache that fails to load is replaced by the empty cache.  With a
  cached entry of the same hash and time the function returns at once; with the same
  hash only, it stores the entry with the new time (\<open>{...cachedFile, modifiedTime}\<close>);
  otherwise it indexes the content.
\<close>

definition processFile :: "env \<Rightarrow> string \<Rightarrow> world \<Rightarrow> ((error + unit) \<times> world) option" where
  "processFile en filePath w =
     (case stat filePath w of
        Inl e \<Rightarrow> Some (Inl e, w)
      | Inr mtimeMs \<Rightarrow>
          (case loadCache w of
             (loaded, w1) \<Rightarrow>
               (let cache0 = (case loaded of Inl e \<Rightarrow> [] | Inr c \<Rightarrow> c);
                    cachedFile = map_of cache0 filePath
                in case readFile filePath w1 of
                     Inl e \<Rightarrow> Some (Inl e, w1)
                   | Inr fileContent \<Rightarrow>
                       (let hash = sha256 en fileContent in
                        case cachedFile of
                          None \<Rightarrow> indexContent en filePath fileContent hash mtimeMs cache0 w1
                        | Some cf \<Rightarrow>
                            if modifiedTime cf = mtimeMs \<and> contentHash cf = hash
                            then Some (Inr (), w1)
                            else if contentHash cf = hash
                            then Some (Inr (),
                                   snd (saveCache
                                          (AList.update filePath (cf\<lparr> modifiedTime := mtimeMs \<rparr>) cache0)
                                          w1))
                            else indexContent en filePath fileContent hash mtimeMs cache0 w1))))"

fun deleteItems :: "string list \<Rightarrow> world \<Rightarrow> (error + unit) \<times> world" where
  "deleteItems [] w = (Inr (), w)"
| "deleteItems (chunkId # rest) w = bindW (deleteItem chunkId w) (\<lambda>u w'. deleteItems rest w')"

text \<open>
  \<open>deleteFile\<close>: the loop variable is called \<open>chunkId\<close> in the source, but it ranges
  over the keys of the cache, which are file paths.
\<close>

definition deleteFile :: "string \<Rightarrow> world \<Rightarrow> (error + unit) \<times> world" where
  "deleteFile filePath w =
     bindW (loadCache w) (\<lambda>c w1.
       (let updated = filter (\<lambda>(chunkId, e). \<not> startsWith chunkId filePath) c;
            deleted = filter (\<lambda>(chunkId, e). startsWith chunkId filePath) c
        in bindW (deleteItems (map fst deleted) w1) (\<lambda>u w2. saveCache updated w2)))"

subsection \<open>\<open>handleFileEvent\<close>\<close>

text \<open>
  The \<open>switch\<close> of \<open>handleFileEvent\<close>.  An \<open>Inl\<close> outcome is an error that the \<open>catch\<close>
  of \<open>handleFileEvent\<close> logs; it stops nothing.
\<close>

definition processEvent :: "env \<Rightarrow> string \<Rightarrow> string \<Rightarrow> world \<Rightarrow> ((error + unit) \<times> world) option" where
  "processEvent en event filePath w =
     (if event = ''add'' then processFile en filePath w
      else if event = ''change'' then
        (case deleteFile filePath w of
           (Inl e, w1) \<Rightarrow> Some (Inl e, w1)
         | (Inr u, w1) \<Rightarrow> processFile en filePath w1)
      else if event = ''unlink'' then Some (deleteFile filePath w)
      else Some (Inr (), w))"

text \<open>
  \<open>JSON.stringify(fileQueue)\<close> and \<open>saveQueue\<close>.  The write is issued when \<open>saveQueue\<close>
  is called; the model performs it then.
\<close>

definition QUEUE_FILE :: string where "QUEUE_FILE = ''.queue.json''"

definition stringifyQueue :: "(string \<times> string) list \<Rightarrow> string" where
  "stringifyQueue q =
     ''['' @ join (map (\<lambda>(event, filePath).
                ''{'' @ quoteJSONString ''event'' @ '':'' @ quoteJSONString event @ '',''
                @ quoteJSONString ''filePath'' @ '':'' @ quoteJSONString filePath @ ''}'') q) '',''
     @ '']''"

definition saveQueue :: "(string \<times> string) list \<Rightarrow> world \<Rightarrow> world" where
  "saveQueue q w = writeFile QUEUE_FILE (stringifyQueue q) w"

text \<open>
  The process as a whole.  JavaScript runs one callback at a time, to its next \<open>await\<close>;
  callbacks of different calls interleave at those points.  The state holds the module
  variables \<open>isProcessingFile\<close> and \<open>fileQueue\<close>, the event whose \<open>switch\<close> is running,
  the dequeued events whose \<open>finally\<close> block waits for its \<open>saveQueue\<close>, the callbacks
  registered with \<open>setImmediate\<close>, and, for the record, the events in the order in
  which their processing started and ended.
\<close>

record system =
  disk :: world
  isProcessingFile :: bool
  fileQueue :: "(string \<times> string) list"
  inFlight :: "(string \<times> string) option"
  awaitingSave :: "(string \<times> string) list"
  immediates :: "(string \<times> string) list"
  started :: "(string \<times> string) list"
  ended :: "(string \<times> string) list"

text \<open>A call of \<open>handleFileEvent\<close>, up to its first \<open>await\<close>.\<close>

definition handleFileEvent :: "string \<Rightarrow> string \<Rightarrow> system \<Rightarrow> system" where
  "handleFileEvent event filePath s =
     (if isProcessingFile s then
        (let q = fileQueue s @ [(event, filePath)]
         in s\<lparr> fileQueue := q, disk := saveQueue q (disk s) \<rparr>)
      else s\<lparr> isProcessingFile := True, inFlight := Some (event, filePath),
              started := started s @ [(event, filePath)] \<rparr>)"

text \<open>
  The running \<open>switch\<close> completes, with or without an error, and the \<open>finally\<close> block
  runs up to its \<open>await saveQueue()\<close>.  If the processing never completes, neither does
  this step.
\<close>

definition completeEvent :: "env \<Rightarrow> system \<Rightarrow> system" where
  "completeEvent en s =
     (case inFlight s of
        None \<Rightarrow> s
      | Some (event, filePath) \<Rightarrow>
          (case processEvent en event filePath (disk s) of
             None \<Rightarrow> s
           | Some (r, w) \<Rightarrow>
               (let s1 = s\<lparr> disk := w, inFlight := None, ended := ended s @ [(event, filePath)],
                           isProcessingFile := False \<rparr>
                in case fileQueue s1 of
                     [] \<Rightarrow> s1
                   | nextFile # q \<Rightarrow>
                       s1\<lparr> fileQueue := q, disk := saveQueue q (disk s1),
                            awaitingSave := awaitingSave s1 @ [nextFile] \<rparr>)))"

text \<open>The \<open>saveQueue\<close> of a \<open>finally\<close> block resolves: \<open>setImmediate\<close> registers the call.\<close>

definition saveQueueDone :: "system \<Rightarrow> system" where
  "saveQueueDone s =
     (case awaitingSave s of
        [] \<Rightarrow> s
      | nextFile # rest \<Rightarrow> s\<lparr> awaitingSave := rest, immediates := immediates s @ [nextFile] \<rparr>)"

text \<open>The oldest \<open>setImmediate\<close> callback runs: \<open>handleFileEvent(nextFile.event, nextFile.filePath)\<close>.\<close>

definition runImmediate :: "system \<Rightarrow> system" where
  "runImmediate s =
     (case immediates s of
        [] \<Rightarrow> s
      | (event, filePath) # rest \<Rightarrow> handleFileEvent event filePath (s\<lparr> immediates := rest \<rparr>))"

datatype action = Arrive string string | Complete | SaveDone | Immediate

fun step :: "env \<Rightarrow> system \<Rightarrow> action \<Rightarrow> system" where
  "step en s (Arrive event filePath) = handleFileEvent event filePath s"
| "step en s Complete = completeEvent en s"
| "step en s SaveDone = saveQueueDone s"
| "step en s Immediate = runImmediate s"

definition run :: "env \<Rightarrow> action list \<Rightarrow> system \<Rightarrow> system" where
  "run en acts s = foldl (step en) s acts"

section \<open>Retrieval: \<open>searchContent\<close>\<close>

text \<open>
  \<open>queryOllama\<close>: one embedding request under \<open>retryWithBackoff\<close>; the dimension of the
  answer is not checked here.
\<close>

definition queryCall :: "backend \<Rightarrow> string \<Rightarrow> nat \<Rightarrow> (error + real list) \<times> nat" where
  "queryCall be query n =
     (case be n query of
        FetchFailed m \<Rightarrow> (Inl (Error m), Suc n)
      | NotOk status body \<Rightarrow>
          (Inl (Error (''Ollama API request failed with status '' @ showNat status @ '': '' @ body)),
           Suc n)
      | JsonFailed m \<Rightarrow> (Inl (Error m), Suc n)
      | Json OtherPayload \<Rightarrow> (Inl (Error ''Invalid response format from Ollama API''), Suc n)
      | Json (EmbeddingResponse v) \<Rightarrow> (Inr v, Suc n))"

definition queryOllama :: "backend \<Rightarrow> string \<Rightarrow> world \<Rightarrow> (error + real list) \<times> world" where
  "queryOllama be query w =
     (case retryWithBackoff (queryCall be query) (requests w) of
        (r, n) \<Rightarrow> (r, w\<lparr> requests := n \<rparr>))"

text \<open>
  A metadata filter: each key with a value or a list of values.  A record matches when
  each key's metadata value equals the value, or is among the values of the list.
\<close>

datatype fval = FVal mval | FList "mval list"

definition matchesFilter :: "(string \<times> fval) list \<Rightarrow> (string \<times> mval) list \<Rightarrow> bool" where
  "matchesFilter flt md =
     list_all (\<lambda>(key, v).
        case v of
          FList vs \<Rightarrow> (case map_of md key of None \<Rightarrow> False | Some x \<Rightarrow> x \<in> set vs)
        | FVal x \<Rightarrow> map_of md key = Some x) flt"

text \<open>\<open>SEARCH_CONFIG\<close>: limit 10, minimum score 0.6, no metadata filter.\<close>

definition searchLimit :: nat where "searchLimit = 10"
definition minScore :: real where "minScore = 0.6"
definition metadataFilter :: "(string \<times> fval) list option" where "metadataFilter = None"

text \<open>The text of one result, loaded from the side file named by \<open>documentId\<close>.\<close>

definition hydrate :: "world \<Rightarrow> vectorRecord \<times> real \<Rightarrow> vectorRecord \<times> real" where
  "hydrate w = (\<lambda>(item, score).
     (let loaded =
            (case map_of (metadata item) ''documentId'' of
               Some (MStr documentId) \<Rightarrow>
                 (if documentId \<noteq> []
                  then (case readFile (VECTOR_STORE_DIR @ ''/'' @ documentId @ ''.txt'') w of
                          Inl e \<Rightarrow> ''[Text unavailable]''
                        | Inr textContent \<Rightarrow> textContent)
                  else ''[Text unavailable]'')
             | _ \<Rightarrow> ''[Text unavailable]'')
      in (item\<lparr> metadata := AList.update ''text'' (MStr loaded) (metadata item) \<rparr>, score)))"

text \<open>The \<open>try\<close> block of \<open>searchContent\<close>.\<close>

definition searchTry :: "env \<Rightarrow> string \<Rightarrow> world \<Rightarrow> (error + (vectorRecord \<times> real) list) \<times> world" where
  "searchTry en query w =
     bindW (if \<not> indexCreated w then createIndex w else (Inr (), w)) (\<lambda>u w1.
     bindW (queryOllama (ollama en) query w1) (\<lambda>queryEmbedding w2.
       case queryItems en (items w2) queryEmbedding query (searchLimit * 2) of
         Inl e \<Rightarrow> (Inl e, w2)
       | Inr vectorResults \<Rightarrow>
           (let filtered1 =
                  (case metadataFilter of
                     None \<Rightarrow> vectorResults
                   | Some flt \<Rightarrow> filter (\<lambda>(item, score). matchesFilter flt (metadata item)) vectorResults);
                filtered2 = filter (\<lambda>(item, score). minScore \<le> score) filtered1;
                results = take searchLimit filtered2
            in (Inr (map (hydrate w2) results), w2))))"

text \<open>
  The \<open>catch\<close>: an \<open>Error\<close> whose message contains the phrase gives the empty result;
  anything else is thrown again.
\<close>

definition tooFewDocuments :: "error \<Rightarrow> bool" where
  "tooFewDocuments e =
     (case e of
        Error m \<Rightarrow> includesStr m ''document collection is too small''
      | ErrnoError c m \<Rightarrow> includesStr m ''document collection is too small''
      | NonError \<Rightarrow> False)"

definition searchContent :: "env \<Rightarrow> string \<Rightarrow> world \<Rightarrow> (error + (vectorRecord \<times> real) list) \<times> world" where
  "searchContent en query w =
     (case searchTry en query w of
        (Inr results, w') \<Rightarrow> (Inr results, w')
      | (Inl e, w') \<Rightarrow> if tooFewDocuments e then (Inr [], w') else (Inl e, w'))"

section \<open>Concrete worlds for the examples\<close>

text \<open>
  An empty world, and an environment whose hash function is a stand-in (the theorems
  hold for every hash function), whose backend answers every request and whose index
  query reports an underfull collection.  Its conversion to numbers is given for the
  two strings of the examples only: \<open>0\<close> is zero, \<open>yesterday\<close> is not a number.  Its
  \<open>path.relative\<close> is given for the paths of the examples, which lie below the base
  directory: the base directory and the separator are cut off.
\<close>

definition relativeBelow :: "string \<Rightarrow> string \<Rightarrow> string" where
  "relativeBelow from to = (if startsWith to (from @ ''/'') then drop (length from + 1) to else to)"

definition sampleToNumber :: "string \<Rightarrow> jsnum" where
  "sampleToNumber s = (if s = ''0'' then Number 0 else NaN)"

definition emptyWorld :: world where
  "emptyWorld =
     \<lparr> files = Map.empty, dirs = {}, now = 0, requests = 0, indexCreated = False,
       updating = False, items = [], vectorStoreLock = False, vectorStoreLockTimeout = None,
       operationCount = 0, lastBackupTime = 0 \<rparr>"

definition underfullEnv :: env where
  "underfullEnv =
     \<lparr> sha256 = rev, ollama = failingUntil 0, cwd = ''/app'',
       queryItems = (\<lambda>stored v q k.
          Inl (Error ''winkBM25S: document collection is too small for consolidation; add more docs!'')),
       toNumber = sampleToNumber, pathRelative = relativeBelow \<rparr>"

definition offlineEnv :: env where
  "offlineEnv = underfullEnv\<lparr> ollama := alwaysFailing \<rparr>"

text \<open>
  A cache with one entry, and a world whose disk holds that cache and the document it
  describes, with content \<open># A\<close> and modification time \<open>m\<close>.
\<close>

definition sampleCache :: cache where
  "sampleCache =
     [(''vault/a.md'',
       \<lparr> contentHash = ''A #'', vectorIds = [''vault/a.md::0''], modifiedTime = 1700000000000 \<rparr>)]"

definition cachedWorld :: "int \<Rightarrow> world" where
  "cachedWorld m =
     emptyWorld\<lparr> files := [''vault/a.md'' \<mapsto> (''# A'', m),
                             CACHE_FILE_PATH \<mapsto> (stringifyCache sampleCache, 0)] \<rparr>"

text \<open>
  The world after the document has been indexed and then removed from the vault: the
  index holds its one record, the cache its entry.  And the idle process.
\<close>

definition indexedWorld :: world where
  "indexedWorld =
     emptyWorld\<lparr> files := [CACHE_FILE_PATH \<mapsto> (stringifyCache sampleCache, 0)],
                  indexCreated := True,
                  items := [vectorDataOf ''vault/a.md::0''
                              \<lparr> embedding = replicate vectorDimensions 0, chunkText = ''# A'' \<rparr>] \<rparr>"

definition idleSystem :: system where
  "idleSystem =
     \<lparr> disk = emptyWorld, isProcessingFile = False, fileQueue = [], inFlight = None,
       awaitingSave = [], immediates = [], started = [], ended = [] \<rparr>"

text \<open>
  A world for orphan cleanup: seven records, of which only the first is in the cache;
  the second has its file on disk, the third is two days old, the fourth an hour old,
  the fifth carries no modification time, and the last two carry a string as their
  modification time.
\<close>

definition orphanRecord :: "string \<Rightarrow> (string \<times> mval) list \<Rightarrow> vectorRecord" where
  "orphanRecord i md = \<lparr> itemId = i, vector = [], metadata = md \<rparr>"

definition cleanupWorld :: world where
  "cleanupWorld =
     emptyWorld\<lparr> files := [CACHE_FILE_PATH \<mapsto> (stringifyCache sampleCache, 0),
                             ''vault/b.md'' \<mapsto> (''# B'', 0)],
                  now := 200000000,
                  indexCreated := True,
                  items := [orphanRecord ''vault/a.md::0'' [(''modifiedTime'', MNum 0)],
                            orphanRecord ''vault/b.md::0'' [(''modifiedTime'', MNum 0)],
                            orphanRecord ''vault/c.md::0'' [(''modifiedTime'', MNum 0)],
                            orphanRecord ''vault/d.md::0'' [(''modifiedTime'', MNum 196400000)],
                            orphanRecord ''vault/e.md::0'' [(''documentId'', MStr ''text_files/e.md__0'')],
                            orphanRecord ''vault/f.md::0'' [(''modifiedTime'', MStr ''0'')],
                            orphanRecord ''vault/g.md::0'' [(''modifiedTime'', MStr ''yesterday'')]] \<rparr>"

text \<open>
  A chunk with the all-zero embedding, and the world after a first \<open>storeChunks\<close> on the
  empty world: the given side files and records, the two directories, the clock at the
  moment the lock's timer let the cleanup in.
\<close>

definition zeroEmbedded :: "string \<Rightarrow> embedded" where
  "zeroEmbedded t = \<lparr> embedding = replicate vectorDimensions 0, chunkText = t \<rparr>"

definition storedWorld :: "(string \<rightharpoonup> string \<times> int) \<Rightarrow> vectorRecord list \<Rightarrow> world" where
  "storedWorld fs rs =
     emptyWorld\<lparr> files := fs, dirs := {VECTOR_STORE_DIR, TEXT_FILES_DIR}, now := 5000,
                  indexCreated := True, items := rs, operationCount := length rs \<rparr>"

section \<open>Properties of the chunker\<close>

lemma startsWith_hash_depth: "startsWith s ''#'' \<Longrightarrow> 0 < headingDepth s"
  by (cases s) (auto simp: startsWith_def headingDepth_def)

lemma matchHashes_heading: "startsWith s ''#'' \<Longrightarrow> matchHashes s = Some (headingDepth s)"
  using startsWith_hash_depth [of s] by (simp add: matchHashes_def headingDepth_def Let_def)

lemma popHeadings_filter:
  "stackOk st \<Longrightarrow> popHeadings h (topLevel st NegInfinity) st = filter (\<lambda>x. headingDepth x < h) st"
proof (induction st rule: rev_induct)
  case Nil
  show ?case by (simp add: popHeadings.simps topLevel_def)
next
  case (snoc x xs)
  from snoc.prems have ok: "stackOk xs" and hx: "startsWith x ''#''"
    and lt: "\<forall>y \<in> set xs. headingDepth y < headingDepth x"
    by (auto simp: stackOk_def sorted_wrt_append sorted_wrt_map)
  have top: "topLevel (xs @ [x]) NegInfinity = Level (headingDepth x)"
    by (simp add: topLevel_def matchHashes_heading [OF hx])
  show ?case
  proof (cases "h \<le> headingDepth x")
    case True
    have "popHeadings h (topLevel (xs @ [x]) NegInfinity) (xs @ [x])
          = popHeadings h (topLevel xs NegInfinity) xs"
      using True by (subst popHeadings.simps) (simp add: top)
    then show ?thesis using snoc.IH [OF ok] True by simp
  next
    case False
    have "popHeadings h (topLevel (xs @ [x]) NegInfinity) (xs @ [x]) = xs @ [x]"
      using False by (subst popHeadings.simps) (simp add: top)
    moreover have "filter (\<lambda>y. headingDepth y < h) (xs @ [x]) = xs @ [x]"
      using False lt by (auto simp: filter_id_conv)
    ultimately show ?thesis by simp
  qed
qed

lemma popHeadings_initial:
  assumes "stackOk st" and "0 < h"
  shows "popHeadings h (topLevel st (Level 0)) st = filter (\<lambda>x. headingDepth x < h) st"
proof (cases "st = []")
  case True
  then show ?thesis using assms(2) by (simp add: popHeadings.simps topLevel_def)
next
  case False
  then have "startsWith (last st) ''#''" using assms(1) by (simp add: stackOk_def)
  then have "topLevel st (Level 0) = topLevel st NegInfinity"
    using False by (simp add: topLevel_def matchHashes_heading)
  then show ?thesis using popHeadings_filter [OF assms(1)] by simp
qed

lemma chunkStep_heading:
  assumes "stackOk (headingStack acc)" and "startsWith line ''#''"
  shows "headingStack (chunkStep fp acc line)
         = filter (\<lambda>x. headingDepth x < headingDepth line) (headingStack acc) @ [line]"
  using assms popHeadings_initial [OF assms(1) startsWith_hash_depth [OF assms(2)]]
  by (simp add: chunkStep_def Let_def matchHashes_heading)

lemma chunkStep_stackOk:
  assumes "stackOk (headingStack acc)"
  shows "stackOk (headingStack (chunkStep fp acc line))"
proof (cases "startsWith line ''#''")
  case True
  show ?thesis
    using assms True unfolding chunkStep_heading [OF assms True]
    by (auto simp: stackOk_def sorted_wrt_append sorted_wrt_map sorted_wrt_filter)
next
  case False
  then show ?thesis using assms by (simp add: chunkStep_def Let_def)
qed

lemma chunkReduce_snoc: "chunkReduce fp (ls @ [l]) = chunkStep fp (chunkReduce fp ls) l"
  by (simp add: chunkReduce_def)

lemma chunkReduce_stackOk: "stackOk (headingStack (chunkReduce fp ls))"
proof (induction ls rule: rev_induct)
  case Nil
  show ?case by (simp add: chunkReduce_def stackOk_def)
next
  case (snoc l ls)
  then show ?case by (simp add: chunkReduce_snoc chunkStep_stackOk)
qed

lemma split_ex: "split ''# A\<newline>foo\<newline>## B\<newline>bar\<newline># C\<newline>baz'' ''\<newline>'' = [''# A'', ''foo'', ''## B'', ''bar'', ''# C'', ''baz'']"
  by (simp add: split_def)

text \<open>
  C5.  For the content \<open># A / foo / ## B / bar / # C / baz\<close> (six lines), \<open>chunkFile\<close>
  returns exactly three chunks, whatever the path: the second carries the headings
  \<open># A\<close> and \<open>## B\<close>, the third only \<open># C\<close>.  The reason is general: after any
  sequence of lines, a heading line leaves on the stack exactly the entries of smaller
  depth, followed by itself; every entry of greater or equal depth has been popped.
\<close>

theorem chunkFile_nesting:
  "chunkFile filePath ''# A\<newline>foo\<newline>## B\<newline>bar\<newline># C\<newline>baz'' =
     [fileParts filePath @ ''\<newline># A\<newline>foo'',
      fileParts filePath @ ''\<newline># A\<newline>## B\<newline>bar'',
      fileParts filePath @ ''\<newline># C\<newline>baz'']
   \<and> (startsWith line ''#'' \<longrightarrow>
        headingStack (chunkReduce fp (ls @ [line])) =
          filter (\<lambda>h. headingDepth h < headingDepth line) (headingStack (chunkReduce fp ls)) @ [line])"
proof
  show "chunkFile filePath ''# A\<newline>foo\<newline>## B\<newline>bar\<newline># C\<newline>baz'' =
     [fileParts filePath @ ''\<newline># A\<newline>foo'',
      fileParts filePath @ ''\<newline># A\<newline>## B\<newline>bar'',
      fileParts filePath @ ''\<newline># C\<newline>baz'']"
    unfolding chunkFile_def chunkReduce_def split_ex
    by (simp add: chunkStep_def startsWith_def matchHashes_def topLevel_def popHeadings.simps Let_def)
next
  show "startsWith line ''#'' \<longrightarrow>
        headingStack (chunkReduce fp (ls @ [line])) =
          filter (\<lambda>h. headingDepth h < headingDepth line) (headingStack (chunkReduce fp ls)) @ [line]"
    by (simp add: chunkReduce_snoc chunkStep_heading [OF chunkReduce_stackOk])
qed

lemma stack_ex: "headingStack (chunkReduce fp [''# A'', ''foo'', ''## B'', ''bar'']) = [''# A'', ''## B'']"
  unfolding chunkReduce_def
  by (simp add: chunkStep_def startsWith_def matchHashes_def topLevel_def popHeadings.simps Let_def)

theorem chunkFile_nesting_witness:
  "startsWith ''# C'' ''#'' \<and>
   chunkFile ''vault/notes/a.md'' ''# A\<newline>foo\<newline>## B\<newline>bar\<newline># C\<newline>baz'' =
     [''notes > a\<newline># A\<newline>foo'', ''notes > a\<newline># A\<newline>## B\<newline>bar'', ''notes > a\<newline># C\<newline>baz'']
   \<and> headingStack (chunkReduce ''notes > a'' [''# A'', ''foo'', ''## B'', ''bar'', ''# C'']) = [''# C'']"
proof -
  have fp: "fileParts ''vault/notes/a.md'' = ''notes > a''"
    by (simp add: fileParts_def split_def)
  have sw: "startsWith ''# C'' ''#''" by (simp add: startsWith_def)
  have d: "headingDepth ''# A'' = 1" "headingDepth ''## B'' = 2" "headingDepth ''# C'' = 1"
    by (simp_all add: headingDepth_def)
  from chunkFile_nesting [of "''vault/notes/a.md''" "''# C''" "''notes > a''" "[''# A'', ''foo'', ''## B'', ''bar'']"]
  show ?thesis using sw by (simp add: fp stack_ex d)
qed

section \<open>Properties of the embedder\<close>

lemma embeddingCall_calls: "snd (embeddingCall be c n) = Suc n"
  by (simp add: embeddingCall_def split: response.splits payload.splits)

lemma retryLoop_calls:
  "\<forall>s. snd (operation s) = Suc s \<Longrightarrow> n < snd (retryLoop operation attempt lastError n) \<or> maxRetries < attempt"
proof (induction operation attempt lastError n rule: retryLoop.induct)
  case (1 operation attempt lastError s)
  obtain r s' where e: "operation s = (r, s')" by (cases "operation s")
  with "1.prems" have s': "s' = Suc s" by (metis snd_conv)
  show ?case
  proof (cases "attempt \<le> maxRetries")
    case False
    then show ?thesis by simp
  next
    case le: True
    show ?thesis
    proof (cases r)
      case (Inr v)
      then show ?thesis using le e s' by (subst retryLoop.simps) simp
    next
      case (Inl x)
      show ?thesis
      proof (cases "attempt = maxRetries")
        case True
        then show ?thesis using e s' Inl by (subst retryLoop.simps) simp
      next
        case False
        from "1.IH" [OF le e [symmetric] Inl False "1.prems"] False le
        have "s' < snd (retryLoop operation (Suc attempt) (Some x) s')" by simp
        then show ?thesis using le e s' Inl False by (subst retryLoop.simps) simp
      qed
    qed
  qed
qed

lemma attemptLoop_once:
  "attemptLoop be c 0 None n =
     (case retryWithBackoff (embeddingCall be c) n of
        (Inr e, n') \<Rightarrow> (Inr e, n')
      | (Inl err, n') \<Rightarrow> (Inl (Some err), n'))"
  by (subst attemptLoop.simps, simp add: fallbackModels_def split: prod.splits sum.splits)
     (subst attemptLoop.simps, simp add: fallbackModels_def)

lemma attemptLoop_calls: "n < snd (attemptLoop be c 0 None n)"
  using retryLoop_calls [of "embeddingCall be c" n 0 None]
  by (auto simp: attemptLoop_once retryWithBackoff_def embeddingCall_calls split: prod.splits sum.splits)


lemma retryLoop_Inr:
  "retryLoop operation attempt lastError s = (Inr v, s') \<Longrightarrow> \<exists>t t'. operation t = (Inr v, t')"
proof (induction operation attempt lastError s rule: retryLoop.induct)
  case (1 operation attempt lastError s)
  obtain r s1 where e: "operation s = (r, s1)" by (cases "operation s")
  show ?case
  proof (cases "attempt \<le> maxRetries")
    case False
    with "1.prems" show ?thesis by (subst (asm) retryLoop.simps) simp
  next
    case le: True
    show ?thesis
    proof (cases r)
      case (Inr w)
      with "1.prems" le e have "w = v" by (subst (asm) retryLoop.simps) simp
      with e Inr show ?thesis by blast
    next
      case (Inl x)
      show ?thesis
      proof (cases "attempt = maxRetries")
        case True
        with "1.prems" le e Inl show ?thesis by (subst (asm) retryLoop.simps) simp
      next
        case False
        from "1.prems" le e Inl False
        have "retryLoop operation (Suc attempt) (Some x) s1 = (Inr v, s')"
          by (subst (asm) retryLoop.simps) simp
        from "1.IH" [OF le e [symmetric] Inl False this] show ?thesis .
      qed
    qed
  qed
qed

lemma embeddingCall_Inr: "embeddingCall be c n = (Inr v, n') \<Longrightarrow> validateVectorDimensions v"
  by (auto simp: embeddingCall_def split: response.splits payload.splits if_splits)

lemma attemptLoop_Inr: "attemptLoop be c 0 None n = (Inr v, n') \<Longrightarrow> validateVectorDimensions v"
proof -
  assume "attemptLoop be c 0 None n = (Inr v, n')"
  then have "retryLoop (embeddingCall be c) 0 None n = (Inr v, n')"
    by (simp add: attemptLoop_once retryWithBackoff_def split: prod.splits sum.splits)
  then obtain t t' where "embeddingCall be c t = (Inr v, t')"
    using retryLoop_Inr [of "embeddingCall be c" 0 None n v n'] by auto
  then show ?thesis by (rule embeddingCall_Inr)
qed

lemma embeddingCall_healthy:
  "healthyFrom be N \<Longrightarrow> N \<le> n \<Longrightarrow> \<exists>v. embeddingCall be c n = (Inr v, Suc n)"
proof -
  assume h: "healthyFrom be N" and le: "N \<le> n"
  then obtain v where "be n c = Json (EmbeddingResponse v)" "validateVectorDimensions v"
    unfolding healthyFrom_def by blast
  then show ?thesis by (simp add: embeddingCall_def)
qed


lemma attemptLoop_healthy:
  assumes "healthyFrom be N" and "N \<le> n"
  shows "\<exists>v. attemptLoop be c 0 None n = (Inr v, Suc n)"
proof -
  from embeddingCall_healthy [OF assms] obtain v where "embeddingCall be c n = (Inr v, Suc n)"
    by blast
  then have "retryLoop (embeddingCall be c) 0 None n = (Inr v, Suc n)"
    by (subst retryLoop.simps) simp
  then show ?thesis by (simp add: attemptLoop_once retryWithBackoff_def)
qed

lemma retryLoop_Inl:
  "\<forall>s. \<exists>e s'. operation s = (Inl e, s') \<Longrightarrow> \<exists>e s'. retryLoop operation attempt lastError s = (Inl e, s')"
proof (induction operation attempt lastError s rule: retryLoop.induct)
  case (1 operation attempt lastError s)
  from "1.prems" obtain x s1 where e: "operation s = (Inl x, s1)" by blast
  show ?case
  proof (cases "attempt \<le> maxRetries \<and> attempt \<noteq> maxRetries")
    case False
    then show ?thesis using e by (subst retryLoop.simps) auto
  next
    case True
    then have le: "attempt \<le> maxRetries" and ne: "attempt \<noteq> maxRetries" by auto
    from "1.IH" [OF le e [symmetric] refl ne "1.prems"]
    show ?thesis using le ne e by (subst retryLoop.simps) simp
  qed
qed

lemma attemptLoop_alwaysFailing: "\<exists>e n'. attemptLoop alwaysFailing c 0 None n = (Inl e, n')"
proof -
  have "\<forall>s. \<exists>e s'. embeddingCall alwaysFailing c s = (Inl e, s')"
    by (simp add: embeddingCall_def alwaysFailing_def)
  from retryLoop_Inl [OF this, of 0 None n]
  show ?thesis by (auto simp: attemptLoop_once retryWithBackoff_def)
qed

lemma embedLoop_acc:
  "embedLoop be cs rs fs n =
     (case embedLoop be cs [] [] n of ((oks, fls), n') \<Rightarrow> ((rs @ oks, fs @ fls), n'))"
proof (induction cs arbitrary: rs fs n)
  case Nil
  show ?case by simp
next
  case (Cons c cs)
  obtain r n1 where a: "attemptLoop be c 0 None n = (r, n1)" by (cases "attemptLoop be c 0 None n")
  show ?case
  proof (cases r)
    case (Inr e)
    let ?x = "\<lparr> embedding = e, chunkText = c \<rparr>"
    have "embedLoop be (c # cs) rs fs n = embedLoop be cs (rs @ [?x]) fs n1"
      using a Inr by simp
    also have "\<dots> = (case embedLoop be cs [] [] n1 of ((oks, fls), n') \<Rightarrow> (((rs @ [?x]) @ oks, fs @ fls), n'))"
      by (rule Cons.IH)
    finally have l: "embedLoop be (c # cs) rs fs n =
        (case embedLoop be cs [] [] n1 of ((oks, fls), n') \<Rightarrow> (((rs @ [?x]) @ oks, fs @ fls), n'))" .
    have "embedLoop be (c # cs) [] [] n = embedLoop be cs [?x] [] n1"
      using a Inr by simp
    also have "\<dots> = (case embedLoop be cs [] [] n1 of ((oks, fls), n') \<Rightarrow> (([?x] @ oks, [] @ fls), n'))"
      by (rule Cons.IH)
    finally show ?thesis using l by (simp split: prod.splits)
  next
    case (Inl e)
    have "embedLoop be (c # cs) rs fs n = embedLoop be cs rs (fs @ [(c, e)]) n1"
      using a Inl by simp
    also have "\<dots> = (case embedLoop be cs [] [] n1 of ((oks, fls), n') \<Rightarrow> ((rs @ oks, (fs @ [(c, e)]) @ fls), n'))"
      by (rule Cons.IH)
    finally have l: "embedLoop be (c # cs) rs fs n =
        (case embedLoop be cs [] [] n1 of ((oks, fls), n') \<Rightarrow> ((rs @ oks, (fs @ [(c, e)]) @ fls), n'))" .
    have "embedLoop be (c # cs) [] [] n = embedLoop be cs [] [(c, e)] n1"
      using a Inl by simp
    also have "\<dots> = (case embedLoop be cs [] [] n1 of ((oks, fls), n') \<Rightarrow> (([] @ oks, [(c, e)] @ fls), n'))"
      by (rule Cons.IH)
    finally show ?thesis using l by (simp split: prod.splits)
  qed
qed

lemma embedLoop_Cons_Inr:
  assumes "attemptLoop be c 0 None n = (Inr e, n1)" and "embedLoop be cs [] [] n1 = ((oks, fls), n')"
  shows "embedLoop be (c # cs) [] [] n = ((\<lparr> embedding = e, chunkText = c \<rparr> # oks, fls), n')"
  using assms by (simp add: embedLoop_acc [of be cs "[x]" for x])

lemma embedLoop_Cons_Inl:
  assumes "attemptLoop be c 0 None n = (Inl e, n1)" and "embedLoop be cs [] [] n1 = ((oks, fls), n')"
  shows "embedLoop be (c # cs) [] [] n = ((oks, (c, e) # fls), n')"
  using assms by (simp add: embedLoop_acc [of be cs "[]" "[x]" for x])


lemma embedLoop_Cons_cases:
  assumes "embedLoop be (c # cs) [] [] n = ((oks, fls), n')"
  shows "\<exists>n1 oks' fls'. embedLoop be cs [] [] n1 = ((oks', fls'), n') \<and> n < n1 \<and>
           ((\<exists>e. attemptLoop be c 0 None n = (Inr e, n1) \<and> validateVectorDimensions e \<and>
                 oks = \<lparr> embedding = e, chunkText = c \<rparr> # oks' \<and> fls = fls') \<or>
            (\<exists>e. attemptLoop be c 0 None n = (Inl e, n1) \<and> oks = oks' \<and> fls = (c, e) # fls'))"
proof -
  obtain r n1 where a: "attemptLoop be c 0 None n = (r, n1)" by (cases "attemptLoop be c 0 None n")
  with attemptLoop_calls [of n be c] have lt: "n < n1" by simp
  obtain oks' fls' n2 where l: "embedLoop be cs [] [] n1 = ((oks', fls'), n2)"
    by (metis surj_pair)
  show ?thesis
  proof (cases r)
    case (Inr e)
    from embedLoop_Cons_Inr [OF a [unfolded Inr] l] assms
    have "oks = \<lparr> embedding = e, chunkText = c \<rparr> # oks'" "fls = fls'" "n' = n2" by simp_all
    moreover have "validateVectorDimensions e" using a Inr attemptLoop_Inr by blast
    ultimately show ?thesis using a Inr l lt by blast
  next
    case (Inl e)
    from embedLoop_Cons_Inl [OF a [unfolded Inl] l] assms
    have "oks = oks'" "fls = (c, e) # fls'" "n' = n2" by simp_all
    then show ?thesis using a Inl l lt by blast
  qed
qed

lemma embedLoop_mset:
  "embedLoop be cs [] [] n = ((oks, fls), n') \<Longrightarrow>
     mset (map chunkText oks) + mset (map fst fls) = mset cs"
proof (induction cs arbitrary: n oks fls)
  case Nil
  then show ?case by simp
next
  case (Cons c cs)
  from embedLoop_Cons_cases [OF Cons.prems] Cons.IH show ?case by fastforce
qed


lemma embedLoop_valid:
  "embedLoop be cs [] [] n = ((oks, fls), n') \<Longrightarrow>
     \<forall>r \<in> set oks. validateVectorDimensions (embedding r)"
proof (induction cs arbitrary: n oks fls)
  case Nil
  then show ?case by simp
next
  case (Cons c cs)
  from embedLoop_Cons_cases [OF Cons.prems] Cons.IH show ?case by fastforce
qed

lemma embedLoop_calls:
  "embedLoop be cs [] [] n = ((oks, fls), n') \<Longrightarrow> n + length cs \<le> n'"
proof (induction cs arbitrary: n oks fls)
  case Nil
  then show ?case by simp
next
  case (Cons c cs)
  from embedLoop_Cons_cases [OF Cons.prems] obtain n1 oks' fls'
    where "embedLoop be cs [] [] n1 = ((oks', fls'), n')" "n < n1" by blast
  with Cons.IH [of n1 oks' fls'] show ?case by simp
qed

lemma embedLoop_healthy:
  "healthyFrom be N \<Longrightarrow> N \<le> n \<Longrightarrow> embedLoop be cs [] [] n = ((oks, fls), n') \<Longrightarrow> fls = []"
proof (induction cs arbitrary: n oks fls)
  case Nil
  then show ?case by simp
next
  case (Cons c cs)
  from attemptLoop_healthy [OF Cons.prems(1,2), of c] obtain v
    where v: "attemptLoop be c 0 None n = (Inr v, Suc n)" by blast
  from embedLoop_Cons_cases [OF Cons.prems(3)] v obtain oks'
    where "embedLoop be cs [] [] (Suc n) = ((oks', fls), n')" by auto
  from Cons.IH [OF Cons.prems(1) _ this] Cons.prems(2) show ?case by simp
qed

lemma embedLoop_alwaysFailing:
  "embedLoop alwaysFailing cs [] [] n = ((oks, fls), n') \<Longrightarrow> map fst fls = cs"
proof (induction cs arbitrary: n oks fls)
  case Nil
  then show ?case by simp
next
  case (Cons c cs)
  from attemptLoop_alwaysFailing [of c n] obtain e n1
    where v: "attemptLoop alwaysFailing c 0 None n = (Inl e, n1)" by blast
  from embedLoop_Cons_cases [OF Cons.prems] v obtain fls'
    where "embedLoop alwaysFailing cs [] [] n1 = ((oks, fls'), n')" "fls = (c, e) # fls'" by auto
  with Cons.IH [of n1 oks fls'] show ?case by simp
qed


lemma embedChunks_pass:
  assumes "chunkList \<noteq> []" and "embedLoop be chunkList [] [] n = ((oks, fls), n1)"
  shows "embedChunks be chunkList n =
           (if fls \<noteq> []
            then Option.bind (embedChunks be (map fst fls) n1) (\<lambda>(retry, n2). Some (oks @ retry, n2))
            else Some (oks, n1))"
  using assms by (subst embedChunks.simps) simp

lemma embedChunks_induct:
  assumes "embedChunks be chunkList n = Some y"
    and "\<And>f be chunkList n y.
           (\<And>be chunkList n y. f be chunkList n = Some y \<Longrightarrow> P be chunkList n y) \<Longrightarrow>
           embedBody f be chunkList n = Some y \<Longrightarrow> P be chunkList n y"
  shows "P be chunkList n y"
  using assms(2) [unfolded embedBody_def] assms(1) by (rule embedChunks.raw_induct)

lemma embedBody_cases:
  assumes "embedBody f be chunkList n = Some y"
  obtains "chunkList = []" "y = ([], n)"
  | oks n1 where "chunkList \<noteq> []" "embedLoop be chunkList [] [] n = ((oks, []), n1)" "y = (oks, n1)"
  | oks fls n1 retry n2 where "chunkList \<noteq> []" "fls \<noteq> []"
      "embedLoop be chunkList [] [] n = ((oks, fls), n1)"
      "f be (map fst fls) n1 = Some (retry, n2)" "y = (oks @ retry, n2)"
proof (cases "chunkList = []")
  case True
  with assms that(1) show ?thesis by (simp add: embedBody_def)
next
  case False
  obtain oks fls n1 where l: "embedLoop be chunkList [] [] n = ((oks, fls), n1)"
    by (metis surj_pair)
  show ?thesis
  proof (cases "fls = []")
    case True
    with assms False l that(2) show ?thesis by (simp add: embedBody_def)
  next
    case fl: False
    with assms False l obtain retry n2
      where "f be (map fst fls) n1 = Some (retry, n2)" "y = (oks @ retry, n2)"
      by (auto simp: embedBody_def bind_eq_Some_conv)
    with False fl l that(3) show ?thesis by blast
  qed
qed

lemma embedChunks_all:
  assumes "embedChunks be chunkList n = Some y"
  shows "mset (map chunkText (fst y)) = mset chunkList \<and>
         (\<forall>r \<in> set (fst y). validateVectorDimensions (embedding r))"
  using assms
proof (rule embedChunks_induct)
  fix f be chunkList n y
  assume ih: "\<And>be chunkList n y. f be chunkList n = Some y \<Longrightarrow>
      mset (map chunkText (fst y)) = mset chunkList \<and>
      (\<forall>r \<in> set (fst y). validateVectorDimensions (embedding r))"
    and body: "embedBody f be chunkList n = Some y"
  from body show "mset (map chunkText (fst y)) = mset chunkList \<and>
      (\<forall>r \<in> set (fst y). validateVectorDimensions (embedding r))"
  proof (cases rule: embedBody_cases)
    case 1
    then show ?thesis by simp
  next
    case (2 oks n1)
    with embedLoop_mset [OF 2(2)] embedLoop_valid [OF 2(2)] show ?thesis by simp
  next
    case (3 oks fls n1 retry n2)
    from ih [OF 3(4)] embedLoop_mset [OF 3(3)] embedLoop_valid [OF 3(3)] 3(5)
    show ?thesis by auto
  qed
qed

lemma embedChunks_returns:
  assumes "healthyFrom be N"
  shows "\<exists>r. embedChunks be chunkList n = Some r"
proof (induction "N - n" arbitrary: n chunkList rule: less_induct)
  case less
  show ?case
  proof (cases "chunkList = []")
    case True
    then show ?thesis by (subst embedChunks.simps) simp
  next
    case False
    obtain oks fls n1 where l: "embedLoop be chunkList [] [] n = ((oks, fls), n1)"
      by (metis surj_pair)
    show ?thesis
    proof (cases "fls = []")
      case True
      then show ?thesis by (simp add: embedChunks_pass [OF False l])
    next
      case fl: False
      with embedLoop_healthy [OF assms _ l] have "n < N" by (meson not_le)
      moreover from embedLoop_calls [OF l] False have "n < n1" by (cases chunkList) auto
      ultimately have "N - n1 < N - n" by simp
      from less.hyps [OF this] obtain r where "embedChunks be (map fst fls) n1 = Some r" by blast
      then show ?thesis using fl by (cases r) (simp add: embedChunks_pass [OF False l])
    qed
  qed
qed

lemma embedChunks_alwaysFailing:
  assumes "embedChunks alwaysFailing chunkList n = Some y"
  shows "chunkList = []"
proof -
  have "embedChunks be chunkList n = Some y \<Longrightarrow> be = alwaysFailing \<longrightarrow> chunkList = []" for be
  proof (erule embedChunks_induct)
    fix f be chunkList n y
    assume ih: "\<And>be chunkList n y. f be chunkList n = Some y \<Longrightarrow> be = alwaysFailing \<longrightarrow> chunkList = []"
      and body: "embedBody f be chunkList n = Some (y :: embedded list \<times> nat)"
    from body show "be = alwaysFailing \<longrightarrow> chunkList = []"
    proof (cases rule: embedBody_cases)
      case 1
      then show ?thesis by simp
    next
      case (2 oks n1)
      with embedLoop_alwaysFailing [of chunkList n oks "[]" n1] show ?thesis by auto
    next
      case (3 oks fls n1 retry n2)
      with ih [OF 3(4)] show ?thesis by simp
    qed
  qed
  with assms show ?thesis by simp
qed

lemma failingUntil_call: "embeddingCall (failingUntil N) c n =
  (if n < N then (Inl (Error ''fetch failed''), Suc n) else (Inr (replicate vectorDimensions 0), Suc n))"
  by (simp add: embeddingCall_def failingUntil_def validateVectorDimensions_def)

text \<open>
  C1 (as amended).  \<open>embedChunks\<close> retries the chunks that failed every attempt of a
  pass by calling itself on them, and the self-call retries its own failures in the same
  way: there is no bound of one retry.  It has no error result, and it never drops a
  chunk: whenever it returns, the result holds an embedding of the expected dimension
  for every input chunk.  It returns whenever the backend answers every request from
  some request on.
\<close>

theorem embedChunks_retries_until_clean:
  "(embedChunks be chunkList n = Some (rs, n') \<longrightarrow>
      mset (map chunkText rs) = mset chunkList \<and>
      (\<forall>r \<in> set rs. validateVectorDimensions (embedding r)))
   \<and> (healthyFrom be N \<longrightarrow> (\<exists>r. embedChunks be chunkList n = Some r))"
  using embedChunks_all [of be chunkList n "(rs, n')"] embedChunks_returns [of be N chunkList n]
  by simp

lemma embedChunks_failingUntil_8:
  "embedChunks (failingUntil 8) [''a''] 0 =
     Some ([\<lparr> embedding = replicate vectorDimensions 0, chunkText = ''a'' \<rparr>], 9)"
  by (simp add: embedChunks.simps attemptLoop_once retryWithBackoff_def retryLoop.simps
        failingUntil_call maxRetries_def)

lemma healthyFrom_failingUntil: "healthyFrom (failingUntil N) N"
  by (simp add: healthyFrom_def failingUntil_def validateVectorDimensions_def)

theorem embedChunks_retries_until_clean_witness:
  "embedChunks (failingUntil 8) [''a''] 0 =
     Some ([\<lparr> embedding = replicate vectorDimensions 0, chunkText = ''a'' \<rparr>], 9)
   \<and> healthyFrom (failingUntil 8) 8
   \<and> mset (map chunkText [\<lparr> embedding = replicate vectorDimensions 0, chunkText = ''a'' \<rparr>])
       = mset [''a'']
   \<and> validateVectorDimensions (replicate vectorDimensions 0)
   \<and> (\<exists>r. embedChunks (failingUntil 8) [''a''] 0 = Some r)"
  using embedChunks_retries_until_clean [of "failingUntil 8" "[''a'']" 0
      "[\<lparr> embedding = replicate vectorDimensions 0, chunkText = ''a'' \<rparr>]" 9 8]
    embedChunks_failingUntil_8 healthyFrom_failingUntil [of 8]
  by simp

text \<open>
  C1 as stated fails twice.  With a backend that refuses every request, \<open>embedChunks\<close>
  on one chunk never returns.  With a backend that refuses the first eight requests, the
  chunk fails the first pass (requests 0 to 3) and the retry pass (requests 4 to 7), and
  is still not dropped: a third pass embeds it.
\<close>

theorem embedChunks_one_retry_counterexample:
  "embedChunks alwaysFailing [''a''] 0 = None
   \<and> map_option (\<lambda>(rs, n). (map chunkText rs, n)) (embedChunks (failingUntil 8) [''a''] 0)
       = Some ([''a''], 9)"
proof
  show "embedChunks alwaysFailing [''a''] 0 = None"
    using embedChunks_alwaysFailing [of "[''a'']" 0]
    by (cases "embedChunks alwaysFailing [''a''] 0") auto
next
  show "map_option (\<lambda>(rs, n). (map chunkText rs, n)) (embedChunks (failingUntil 8) [''a''] 0)
       = Some ([''a''], 9)"
    by (simp add: embedChunks_failingUntil_8)
qed

section \<open>The cache text round trip\<close>

lemma digitChar_dec_all: "\<forall>d \<in> set [0..<10]. (of_char (digitChar d) :: nat) = 48 + d"
  by code_simp

lemma digitChar_dec: "d < 10 \<Longrightarrow> (of_char (digitChar d) :: nat) = 48 + d"
  using digitChar_dec_all by simp

lemma hexVal_digitChar_all: "\<forall>d \<in> set [0..<16]. hexVal (digitChar d) = Some d"
  by code_simp

lemma hexVal_digitChar: "d < 16 \<Longrightarrow> hexVal (digitChar d) = Some d"
  using hexVal_digitChar_all by simp

lemma consResult_Some [simp]: "consResult x (Some (xs, r)) = Some (x # xs, r)"
  by (simp add: consResult_def)

lemma char_facts:
  "backslash \<noteq> dquote" "CHR ''u'' \<noteq> dquote" "CHR ''u'' \<noteq> backslash"
  "hexVal (CHR ''0'') = Some 0"
  "unescape dquote = Some dquote" "unescape backslash = Some backslash"
  "unescape (CHR ''b'') = Some (CHR 0x08)" "unescape (CHR ''t'') = Some (CHR 0x09)"
  "unescape (CHR ''n'') = Some (CHR 0x0A)" "unescape (CHR ''f'') = Some (CHR 0x0C)"
  "unescape (CHR ''r'') = Some (CHR 0x0D)"
  "dquote \<noteq> CHR ''u''" "backslash \<noteq> CHR ''u''" "CHR ''b'' \<noteq> CHR ''u''" "CHR ''t'' \<noteq> CHR ''u''"
  "CHR ''n'' \<noteq> CHR ''u''" "CHR ''f'' \<noteq> CHR ''u''" "CHR ''r'' \<noteq> CHR ''u''"
  by (simp_all add: backslash_def dquote_def hexVal_def unescape_def)

lemma parseStringBody_quoteChar:
  "parseStringBody (quoteChar c @ rest) = consResult c (parseStringBody rest)"
proof -
  consider (q) "c = dquote" | (b) "c = backslash"
    | (n) "c \<in> {CHR 0x08, CHR 0x09, CHR 0x0A, CHR 0x0C, CHR 0x0D}"
    | (u) "c \<noteq> dquote" "c \<noteq> backslash" "c \<notin> {CHR 0x08, CHR 0x09, CHR 0x0A, CHR 0x0C, CHR 0x0D}"
          "(of_char c :: nat) < 32"
    | (p) "c \<noteq> dquote" "c \<noteq> backslash" "\<not> (of_char c :: nat) < 32"
    by force
  then show ?thesis
  proof cases
    case q
    then show ?thesis by (simp add: quoteChar_def decodeEscape_def char_facts)
  next
    case b
    then show ?thesis by (simp add: quoteChar_def decodeEscape_def char_facts)
  next
    case n
    then show ?thesis
      by (auto simp: quoteChar_def decodeEscape_def char_facts)
  next
    case u
    let ?n = "of_char c :: nat"
    have hi: "?n div 16 < 16" and lo: "?n mod 16 < 16" using u(4) by auto
    have "char_of (16 * (?n div 16) + ?n mod 16) = c" by simp
    with u show ?thesis
      by (simp add: quoteChar_def decodeEscape_def char_facts hexVal_digitChar [OF hi]
          hexVal_digitChar [OF lo])
  next
    case p
    then have "quoteChar c = [c]"
      by (auto simp: quoteChar_def)
    with p show ?thesis by simp
  qed
qed

lemma parseStringBody_quoted:
  "parseStringBody (concat (map quoteChar s) @ dquote # rest) = Some (s, rest)"
  by (induction s) (simp_all add: parseStringBody_quoteChar)


lemma ws_facts:
  "isWs (CHR '' '')" "isWs (CHR 0x0A)" "\<not> isWs dquote" "\<not> isWs (CHR '','')" "\<not> isWs (CHR '':'')"
  "\<not> isWs (CHR ''['')" "\<not> isWs (CHR '']'')" "\<not> isWs (CHR ''{'')" "\<not> isWs (CHR ''}'')"
  "\<not> isWs (CHR ''-'')"
  by (simp_all add: isWs_def dquote_def)

lemma skipWs_simps [simp]:
  "isWs c \<Longrightarrow> skipWs (c # s) = skipWs s"
  "\<not> isWs c \<Longrightarrow> skipWs (c # s) = c # s"
  "skipWs [] = []"
  by (simp_all add: skipWs_def)

lemma expectChar_simps [simp]:
  "isWs c \<Longrightarrow> expectChar x (c # s) = expectChar x s"
  "\<not> isWs c \<Longrightarrow> expectChar x (c # s) = (if c = x then Some s else None)"
  by (simp_all add: expectChar_def)

lemma parseString_ws [simp]: "isWs c \<Longrightarrow> parseString (c # s) = parseString s"
  by (simp add: parseString_def)

lemma parseString_quoted [simp]: "parseString (quoteJSONString s @ rest) = Some (s, rest)"
  by (simp add: parseString_def quoteJSONString_def ws_facts parseStringBody_quoted)

lemma parseKey_ws [simp]: "isWs c \<Longrightarrow> parseKey k (c # s) = parseKey k s"
  by (simp add: parseKey_def)

lemma parseKey_quoted [simp]:
  "parseKey k (quoteJSONString k @ CHR '':'' # rest) = Some rest"
  using parseString_quoted [of k "CHR '':'' # rest"] by (simp add: parseKey_def ws_facts)

lemma parseInt_ws [simp]: "isWs c \<Longrightarrow> parseInt (c # s) = parseInt s"
  by (simp add: parseInt_def)

lemma parseIds_ws [simp]: "isWs c \<Longrightarrow> parseIds (c # s) = parseIds s"
  by (simp add: parseIds_def)

lemma parseElems_ws [simp]: "isWs c \<Longrightarrow> parseElems (c # s) = parseElems s"
  by (subst parseElems.simps, subst (2) parseElems.simps) simp

lemma parseEntry_ws [simp]: "isWs c \<Longrightarrow> parseEntry (c # s) = parseEntry s"
  by (simp add: parseEntry_def)

lemma parseMembers_ws [simp]: "isWs c \<Longrightarrow> parseMembers (c # s) = parseMembers s"
  by (subst parseMembers.simps, subst (2) parseMembers.simps) simp

subsection \<open>Numbers\<close>

lemma showNat_digits: "\<forall>c \<in> set (showNat n). isDigit c"
proof (induction n rule: showNat.induct)
  case (1 n)
  have d: "isDigit (digitChar (n mod 10))"
    using digitChar_dec [of "n mod 10"] by (simp add: isDigit_def)
  show ?case
  proof (cases "n < 10")
    case True
    with d show ?thesis by (subst showNat.simps) simp
  next
    case False
    with "1.IH" d show ?thesis by (subst showNat.simps) simp
  qed
qed

lemma showNat_nonempty: "showNat n \<noteq> []"
  by (subst showNat.simps) simp

lemma digitsVal_snoc: "digitsVal (ds @ [d]) = 10 * digitsVal ds + (of_char d - 48)"
  by (simp add: digitsVal_def)

lemma digitsVal_showNat: "digitsVal (showNat n) = n"
proof (induction n rule: showNat.induct)
  case (1 n)
  have d: "(of_char (digitChar (n mod 10)) :: nat) - 48 = n mod 10"
    using digitChar_dec [of "n mod 10"] by simp
  show ?case
  proof (cases "n < 10")
    case True
    with d show ?thesis by (subst showNat.simps) (simp add: digitsVal_def)
  next
    case False
    with "1.IH" d show ?thesis by (subst showNat.simps) (simp add: digitsVal_snoc)
  qed
qed

lemma showNat_hd: "0 < n \<Longrightarrow> hd (showNat n) \<noteq> CHR ''0''"
proof (induction n rule: showNat.induct)
  case (1 n)
  show ?case
  proof (cases "n < 10")
    case True
    have "(of_char (digitChar n) :: nat) = 48 + n" using True digitChar_dec by simp
    moreover have "(of_char (CHR ''0'') :: nat) = 48" by simp
    ultimately have "digitChar n \<noteq> CHR ''0''" using "1.prems" by (metis add_cancel_right_right less_numeral_extra(3))
    with True show ?thesis by (subst showNat.simps) simp
  next
    case False
    then have "0 < n div 10" by simp
    from "1.IH" [OF False this] False showNat_nonempty [of "n div 10"]
    show ?thesis by (subst showNat.simps) simp
  qed
qed

lemma showNat_length: "1 < length (showNat n) \<Longrightarrow> 0 < n"
  by (subst (asm) showNat.simps) (auto split: if_splits)

lemma parseNat_showNat:
  assumes "endsNumber rest"
  shows "parseNat (showNat n @ rest) = Some (n, rest)"
proof -
  have nd: "rest = [] \<or> \<not> isDigit (hd rest)"
    using assms by (auto simp: endsNumber_def split: list.splits)
  have tw: "takeWhile isDigit (showNat n @ rest) = showNat n"
    using showNat_digits [of n] nd by (cases rest) (auto simp: takeWhile_append)
  have dw: "dropWhile isDigit (showNat n @ rest) = rest"
    using showNat_digits [of n] nd by (cases rest) (auto simp: dropWhile_append)
  have lz: "\<not> (hd (showNat n) = CHR ''0'' \<and> 1 < length (showNat n))"
    using showNat_hd [of n] showNat_length [of n] by blast
  show ?thesis
    using assms lz showNat_nonempty [of n]
    by (auto simp: parseNat_def tw dw Let_def digitsVal_showNat endsNumber_def split: list.splits)
qed

lemma showNat_first: "\<exists>c cs. showNat n = c # cs \<and> isDigit c"
  using showNat_nonempty [of n] showNat_digits [of n] by (cases "showNat n") auto

lemma isDigit_facts: "isDigit c \<Longrightarrow> \<not> isWs c \<and> c \<noteq> CHR ''-''"
  by (auto simp: isDigit_def isWs_def)

lemma parseInt_showInt:
  assumes "endsNumber rest"
  shows "parseInt (showInt m @ rest) = Some (m, rest)"
proof (cases "m < 0")
  case True
  then show ?thesis
    using parseNat_showNat [OF assms, of "nat (- m)"]
    by (simp add: showInt_def parseInt_def ws_facts)
next
  case False
  obtain c cs where c: "showNat (nat m) = c # cs" "isDigit c"
    using showNat_first by blast
  with isDigit_facts [of c] have "skipWs (showNat (nat m) @ rest) = showNat (nat m) @ rest"
    by simp
  then show ?thesis
    using False c isDigit_facts [of c] parseNat_showNat [OF assms, of "nat m"]
    by (simp add: showInt_def parseInt_def)
qed


subsection \<open>Arrays, entries, the cache\<close>

lemma parseElems_quoted:
  assumes "ids \<noteq> []"
  shows "parseElems (join (map (\<lambda>i. ''      '' @ quoteJSONString i) ids) '',\<newline>''
                     @ ''\<newline>    ]'' @ rest) = Some (ids, rest)"
  using assms
proof (induction ids rule: list_nonempty_induct)
  case (single x)
  show ?case
    using parseString_quoted [of x "''\<newline>    ]'' @ rest"]
    by (subst parseElems.simps) (simp add: ws_facts)
next
  case (cons x xs)
  then obtain y ys where xs: "xs = y # ys" by (cases xs) auto
  let ?tail = "join (map (\<lambda>i. ''      '' @ quoteJSONString i) xs) '',\<newline>'' @ ''\<newline>    ]'' @ rest"
  have "join (map (\<lambda>i. ''      '' @ quoteJSONString i) (x # xs)) '',\<newline>'' @ ''\<newline>    ]'' @ rest
        = ''      '' @ quoteJSONString x @ '',\<newline>'' @ ?tail"
    by (simp add: xs)
  then show ?case
    using parseString_quoted [of x "'',\<newline>'' @ ?tail"] cons.IH
    by (subst parseElems.simps) (simp add: ws_facts)
qed

lemma parseIds_stringifyIds: "parseIds (stringifyIds ids @ rest) = Some (ids, rest)"
proof (cases "ids = []")
  case True
  then show ?thesis by (simp add: parseIds_def stringifyIds_def ws_facts)
next
  case False
  have q: "expectChar (CHR '']'') (''\<newline>      '' @ quoteJSONString i @ t) = None" for i t
  proof -
    have "dquote \<noteq> CHR '']''" by (simp add: dquote_def)
    then show ?thesis by (simp add: ws_facts quoteJSONString_def)
  qed
  from False obtain y ys where ids: "ids = y # ys" by (cases ids) auto
  have "expectChar (CHR '']'')
          (''\<newline>'' @ join (map (\<lambda>i. ''      '' @ quoteJSONString i) ids) '',\<newline>''
             @ ''\<newline>    ]'' @ rest) = None"
    using q by (cases ys) (simp_all add: ids)
  then show ?thesis
    using False parseElems_quoted [OF False, of rest]
    by (simp add: parseIds_def stringifyIds_def ws_facts)
qed

lemma endsNumber_newline: "endsNumber (CHR 0x0A # s)"
  by (simp add: endsNumber_def isDigit_def)

lemma parseEntry_stringifyEntry: "parseEntry (stringifyEntry e @ rest) = Some (e, rest)"
proof -
  have "parseInt (showInt (modifiedTime e) @ ''\<newline>  }'' @ rest)
        = Some (modifiedTime e, ''\<newline>  }'' @ rest)"
    by (rule parseInt_showInt) (simp add: endsNumber_newline)
  then show ?thesis
    using parseKey_quoted [of "''contentHash''"] parseKey_quoted [of "''vectorIds''"]
      parseKey_quoted [of "''modifiedTime''"]
      parseString_quoted [of "contentHash e"] parseIds_stringifyIds [of "vectorIds e"]
    by (simp add: parseEntry_def stringifyEntry_def ws_facts)
qed


lemma parseMembers_member:
  "parseMembers (stringifyMember (k, e) @ '',\<newline>'' @ t) = consResult (k, e) (parseMembers t)"
  "parseMembers (stringifyMember (k, e) @ ''\<newline>}'' @ t) = Some ([(k, e)], t)"
proof -
  show "parseMembers (stringifyMember (k, e) @ '',\<newline>'' @ t) = consResult (k, e) (parseMembers t)"
    using parseString_quoted [of k "'': '' @ stringifyEntry e @ '',\<newline>'' @ t"]
      parseEntry_stringifyEntry [of e "'',\<newline>'' @ t"]
    by (subst parseMembers.simps) (simp add: stringifyMember_def ws_facts)
  show "parseMembers (stringifyMember (k, e) @ ''\<newline>}'' @ t) = Some ([(k, e)], t)"
    using parseString_quoted [of k "'': '' @ stringifyEntry e @ ''\<newline>}'' @ t"]
      parseEntry_stringifyEntry [of e "''\<newline>}'' @ t"]
    by (subst parseMembers.simps) (simp add: stringifyMember_def ws_facts)
qed

lemma parseMembers_stringified:
  assumes "c \<noteq> []"
  shows "parseMembers (join (map stringifyMember c) '',\<newline>'' @ ''\<newline>}'' @ rest) = Some (c, rest)"
  using assms
proof (induction c rule: list_nonempty_induct)
  case (single x)
  show ?case using parseMembers_member(2) [of "fst x" "snd x" rest] by simp
next
  case (cons x xs)
  then obtain y ys where xs: "xs = y # ys" by (cases xs) auto
  let ?tail = "join (map stringifyMember xs) '',\<newline>'' @ ''\<newline>}'' @ rest"
  have "join (map stringifyMember (x # xs)) '',\<newline>'' @ ''\<newline>}'' @ rest
        = stringifyMember x @ '',\<newline>'' @ ?tail"
    by (simp add: xs)
  then show ?case
    using parseMembers_member(1) [of "fst x" "snd x" ?tail] cons.IH by simp
qed

lemma update_fresh: "k \<notin> fst ` set al \<Longrightarrow> AList.update k v al = al @ [(k, v)]"
  by (induction al) auto

lemma foldl_update_distinct:
  "distinct (map fst (acc @ c)) \<Longrightarrow> foldl (\<lambda>obj (k, e). AList.update k e obj) acc c = acc @ c"
proof (induction c arbitrary: acc)
  case Nil
  show ?case by simp
next
  case (Cons x xs)
  obtain k e where x: "x = (k, e)" by (cases x)
  from Cons.prems have fresh: "k \<notin> fst ` set acc" by (auto simp: x)
  from Cons.prems have "distinct (map fst ((acc @ [(k, e)]) @ xs))" by (simp add: x)
  from Cons.IH [OF this] show ?case by (simp add: x update_fresh [OF fresh])
qed

lemma parseCache_stringifyCache:
  "parseCache (stringifyCache c) = Some (foldl (\<lambda>obj (k, e). AList.update k e obj) [] c)"
proof (cases "c = []")
  case True
  then show ?thesis by (simp add: parseCache_def stringifyCache_def ws_facts)
next
  case False
  then obtain k e xs where c: "c = (k, e) # xs" by (cases c) auto
  have shape: "stringifyCache c = ''{\<newline>'' @ join (map stringifyMember c) '',\<newline>'' @ ''\<newline>}''"
    using False by (simp add: stringifyCache_def)
  have "dquote \<noteq> CHR ''}''" by (simp add: dquote_def)
  then have "expectChar (CHR ''}'') (stringifyMember (k, e) @ t) = None" for t
    by (simp add: stringifyMember_def quoteJSONString_def ws_facts)
  then have nb: "expectChar (CHR ''}'') (''\<newline>'' @ join (map stringifyMember c) '',\<newline>'' @ ''\<newline>}'') = None"
    by (cases xs) (simp_all add: c ws_facts)
  show ?thesis
    using parseMembers_stringified [OF False, of "[]"] nb
    by (simp add: shape parseCache_def ws_facts)
qed

lemma parseCache_roundtrip:
  "distinct (map fst c) \<Longrightarrow> parseCache (stringifyCache c) = Some c"
  using foldl_update_distinct [of "[]" c] by (simp add: parseCache_stringifyCache)

section \<open>Properties of the change cache\<close>

lemma cache_paths:
  "CACHE_FILE_PATH @ ''.tmp'' \<noteq> CACHE_FILE_PATH" "CACHE_FILE_PATH @ ''.bak'' \<noteq> CACHE_FILE_PATH"
  "CACHE_FILE_PATH @ ''.tmp'' \<noteq> CACHE_FILE_PATH @ ''.bak''"
  "CACHE_FILE_PATH \<noteq> CACHE_FILE_PATH @ ''.tmp''" "CACHE_FILE_PATH \<noteq> CACHE_FILE_PATH @ ''.bak''"
  "CACHE_FILE_PATH @ ''.bak'' \<noteq> CACHE_FILE_PATH @ ''.tmp''"
  by simp_all

lemma saveCache_eq:
  "saveCache c w = (Inr (), w\<lparr> files := savedFiles c w, dirs := insert VECTOR_STORE_DIR (dirs w) \<rparr>)"
proof -
  let ?x = "(stringifyCache c, now w)"
  have f1: "(files w)(CACHE_FILE_PATH @ ''.tmp'' := None, CACHE_FILE_PATH \<mapsto> ?x,
                      CACHE_FILE_PATH @ ''.bak'' := None) = savedFiles c w"
    by (rule ext) (simp add: savedFiles_def)
  have f2: "files w (CACHE_FILE_PATH @ ''.bak'') = None \<Longrightarrow>
            (files w)(CACHE_FILE_PATH @ ''.tmp'' := None, CACHE_FILE_PATH \<mapsto> ?x) = savedFiles c w"
    by (rule ext) (simp add: savedFiles_def)
  show ?thesis
    using cache_paths
    by (cases "files w CACHE_FILE_PATH")
       (auto simp: saveCache_def Let_def writeFile_def readFile_def mkdir_def rename_def unlink_def f1 f2
          split: option.splits prod.splits)
qed

lemma loadCache_eq:
  "loadCache w =
     ((case files w CACHE_FILE_PATH of
         None \<Rightarrow> Inr []
       | Some (d, t) \<Rightarrow> (case parseCache d of None \<Rightarrow> Inl (Error ''Unexpected token in JSON'') | Some c \<Rightarrow> Inr c)),
      w\<lparr> dirs := insert VECTOR_STORE_DIR (dirs w) \<rparr>)"
  by (simp add: loadCache_def Let_def readFile_def mkdir_def enoent_def split: option.splits)

lemma distinct_foldl_update:
  "distinct (map fst acc) \<Longrightarrow>
     distinct (map fst (foldl (\<lambda>obj (k, e). AList.update k e obj) acc ms))"
  by (induction ms arbitrary: acc) (auto simp: distinct_update)

lemma parseCache_distinct: "parseCache d = Some c \<Longrightarrow> distinct (map fst c)"
  using distinct_foldl_update [of "[]"]
  by (auto simp: parseCache_def split: option.splits if_splits)

lemma loadCache_distinct: "fst (loadCache w) = Inr c \<Longrightarrow> distinct (map fst c)"
  by (auto simp: loadCache_eq split: option.splits dest: parseCache_distinct)

lemma loadCache_world: "snd (loadCache w) = w\<lparr> dirs := insert VECTOR_STORE_DIR (dirs w) \<rparr>"
  by (simp add: loadCache_eq)

lemma loadCache_saveCache:
  "distinct (map fst c) \<Longrightarrow> fst (loadCache (snd (saveCache c w))) = Inr c"
  by (simp add: saveCache_eq loadCache_eq savedFiles_def parseCache_roundtrip)

text \<open>
  C8.  For every cache (an object: its keys are distinct), a successful \<open>saveCache\<close>
  followed by \<open>loadCache\<close> yields the cache that was saved.
\<close>

theorem saveCache_loadCache_roundtrip:
  "distinct (map fst c) \<Longrightarrow> fst (saveCache c w) = Inr () \<Longrightarrow>
     fst (loadCache (snd (saveCache c w))) = Inr c"
  by (simp add: saveCache_eq loadCache_eq savedFiles_def parseCache_roundtrip)


theorem saveCache_loadCache_roundtrip_witness:
  "distinct (map fst sampleCache) \<and> fst (saveCache sampleCache emptyWorld) = Inr ()
   \<and> fst (loadCache (snd (saveCache sampleCache emptyWorld))) = Inr sampleCache"
proof -
  have d: "distinct (map fst sampleCache)" by (simp add: sampleCache_def)
  have s: "fst (saveCache sampleCache emptyWorld) = Inr ()" by (simp add: saveCache_eq)
  from saveCache_loadCache_roundtrip [OF d s] d s show ?thesis by simp
qed

section \<open>Properties of the vector store\<close>

lemma sameData_refl [simp]: "sameData w w"
  by (simp add: sameData_def)

lemma sameData_trans: "sameData w w1 \<Longrightarrow> sameData w1 w2 \<Longrightarrow> sameData w w2"
  by (simp add: sameData_def)

lemma sleep_sameData: "sameData w (sleep d w)"
  by (simp add: sameData_def sleep_def Let_def split: option.splits)

lemma acquireLoop_sameData: "sameData w (snd (acquireLoop timeout start w))"
proof (induction timeout start w rule: acquireLoop.induct)
  case (1 timeout start w)
  show ?case
  proof (cases "vectorStoreLock w \<and> \<not> now w - start > timeout")
    case True
    with "1.IH" have "sameData (sleep 100 w) (snd (acquireLoop timeout start (sleep 100 w)))" by simp
    with sleep_sameData [of w 100] True show ?thesis
      by (subst acquireLoop.simps) (auto intro: sameData_trans)
  next
    case False
    then show ?thesis by (subst acquireLoop.simps) (auto simp: sameData_def)
  qed
qed

lemma acquireLock_sameData: "acquireLock w = (b, w1) \<Longrightarrow> sameData w w1"
  using acquireLoop_sameData [of w 5000 "now w"] by (simp add: acquireLock_def)

lemma releaseLock_sameData: "sameData w (releaseLock w)"
  by (simp add: sameData_def releaseLock_def)

lemma removeItem_distinct:
  "distinct (map itemId xs) \<Longrightarrow> removeItem i xs = filter (\<lambda>x. itemId x \<noteq> i) xs"
proof (induction xs)
  case Nil
  show ?case by simp
next
  case (Cons x xs)
  show ?case
  proof (cases "itemId x = i")
    case True
    from Cons.prems have "itemId x \<notin> itemId ` set xs" by simp
    then have "\<forall>y \<in> set xs. itemId y \<noteq> itemId x" by (metis imageI)
    with True have "\<forall>y \<in> set xs. itemId y \<noteq> i" by simp
    then have "filter (\<lambda>y. itemId y \<noteq> i) xs = xs" by (simp add: filter_id_conv)
    with True show ?thesis by simp
  next
    case False
    with Cons show ?thesis by simp
  qed
qed

lemma agedOut_code:
  "agedOut en n v \<longleftrightarrow>
     \<not> jsLess (jsMinus n (toNumberOf en (modifiedTimeOr (metadata v) n))) maxOrphanedAge"
proof (cases "map_of (metadata v) ''modifiedTime''")
  case None
  then show ?thesis by (simp add: agedOut_def modifiedTimeOr_def maxOrphanedAge_def)
next
  case (Some x)
  show ?thesis
  proof (cases x)
    case (MNum m)
    have "real_of_int n - real_of_int m < real_of_int maxOrphanedAge \<longleftrightarrow> n - m < maxOrphanedAge"
      by linarith
    with Some MNum show ?thesis by (simp add: agedOut_def modifiedTimeOr_def not_less)
  next
    case (MStr t)
    with Some show ?thesis
      by (cases "toNumber en t") (simp_all add: agedOut_def modifiedTimeOr_def not_less)
  qed
qed

lemma orphanDue_code:
  "orphanDue en ids w n v \<longleftrightarrow>
     itemId v \<notin> set ids \<and> \<not> access (hd (split (itemId v) ''::'')) w \<and>
     \<not> jsLess (jsMinus n (toNumberOf en (modifiedTimeOr (metadata v) n))) maxOrphanedAge"
  by (simp add: orphanDue_def agedOut_code)

lemma cleanupLoop_skip:
  assumes "\<not> orphanDue en ids w n v"
  shows "cleanupLoop en ids n (v # vs) w = cleanupLoop en ids n vs w"
proof -
  from assms consider "itemId v \<in> set ids" | "access (hd (split (itemId v) ''::'')) w"
    | "jsLess (jsMinus n (toNumberOf en (modifiedTimeOr (metadata v) n))) maxOrphanedAge"
    unfolding orphanDue_code by blast
  then show ?thesis by cases (simp_all add: Let_def)
qed

lemma cleanupLoop_delete:
  assumes "orphanDue en ids w n v" and "indexCreated w"
  shows "cleanupLoop en ids n (v # vs) w
         = cleanupLoop en ids n vs (w\<lparr> items := removeItem (itemId v) (items w) \<rparr>)"
proof -
  from assms(1) have "itemId v \<notin> set ids" "\<not> access (hd (split (itemId v) ''::'')) w"
    "\<not> jsLess (jsMinus n (toNumberOf en (modifiedTimeOr (metadata v) n))) maxOrphanedAge"
    unfolding orphanDue_code by blast+
  then show ?thesis using assms(2) by (simp add: Let_def bindW_def deleteItem_def)
qed

lemma cleanupLoop_items:
  assumes "indexCreated w" and "distinct (map itemId (items w))"
  shows "cleanupLoop en ids n vs w =
           (Inr (), w\<lparr> items := filter (\<lambda>x. itemId x \<notin> itemId ` {v \<in> set vs. orphanDue en ids w n v})
                                  (items w) \<rparr>)"
  using assms
proof (induction vs arbitrary: w)
  case Nil
  show ?case by simp
next
  case (Cons v vs)
  show ?case
  proof (cases "orphanDue en ids w n v")
    case False
    then have "{x \<in> set (v # vs). orphanDue en ids w n x} = {x \<in> set vs. orphanDue en ids w n x}"
      by auto
    then show ?thesis
      using Cons.IH [OF Cons.prems] by (simp only: cleanupLoop_skip [OF False])
  next
    case True
    let ?w1 = "w\<lparr> items := removeItem (itemId v) (items w) \<rparr>"
    let ?D = "{y \<in> set vs. orphanDue en ids w n y}"
    have r: "removeItem (itemId v) (items w) = filter (\<lambda>x. itemId x \<noteq> itemId v) (items w)"
      by (rule removeItem_distinct [OF Cons.prems(2)])
    have d1: "distinct (map itemId (items ?w1))"
      using Cons.prems(2) by (simp add: r distinct_map_filter)
    have i1: "indexCreated ?w1" using Cons.prems(1) by simp
    have it1: "items ?w1 = removeItem (itemId v) (items w)" by simp
    have o: "orphanDue en ids ?w1 n = orphanDue en ids w n"
      by (rule ext) (simp add: orphanDue_def access_def)
    have A: "{y \<in> set (v # vs). orphanDue en ids w n y} = insert v ?D"
      using True by auto
    have f: "filter (\<lambda>x. itemId x \<notin> itemId ` ?D) (items ?w1)
             = filter (\<lambda>x. itemId x \<notin> itemId ` insert v ?D) (items w)"
    proof -
      have "filter (\<lambda>x. itemId x \<notin> itemId ` ?D) (filter (\<lambda>x. itemId x \<noteq> itemId v) (items w))
            = filter (\<lambda>x. itemId x \<noteq> itemId v \<and> itemId x \<notin> itemId ` ?D) (items w)"
        by (rule filter_filter)
      also have "\<dots> = filter (\<lambda>x. itemId x \<notin> itemId ` insert v ?D) (items w)"
        by (rule filter_cong [OF refl]) simp
      finally show ?thesis by (simp add: r)
    qed
    have "cleanupLoop en ids n (v # vs) w = cleanupLoop en ids n vs ?w1"
      by (rule cleanupLoop_delete [OF True Cons.prems(1)])
    also have "\<dots> = (Inr (), ?w1\<lparr> items := filter (\<lambda>x. itemId x \<notin> itemId ` ?D) (items ?w1) \<rparr>)"
      using Cons.IH [OF i1 d1] by (simp only: o)
    also have "\<dots> = (Inr (), w\<lparr> items := filter (\<lambda>x. itemId x \<notin> itemId ` insert v ?D) (items w) \<rparr>)"
      by (simp only: f) simp
    finally show ?thesis by (simp only: A)
  qed
qed

lemma filter_due_distinct:
  assumes "distinct (map itemId xs)"
  shows "filter (\<lambda>x. itemId x \<notin> itemId ` {v \<in> set xs. P v}) xs = filter (\<lambda>v. \<not> P v) xs"
proof (rule filter_cong [OF refl])
  fix x assume x: "x \<in> set xs"
  have "itemId x \<in> itemId ` {v \<in> set xs. P v} \<longleftrightarrow> P x"
  proof
    assume "itemId x \<in> itemId ` {v \<in> set xs. P v}"
    then obtain v where v: "v \<in> set xs" "P v" "itemId v = itemId x" by auto
    from assms have "inj_on itemId (set xs)" by (simp add: distinct_map)
    with v x have "v = x" by (auto dest: inj_onD)
    with v show "P x" by simp
  next
    assume "P x"
    with x show "itemId x \<in> itemId ` {v \<in> set xs. P v}" by auto
  qed
  then show "(itemId x \<notin> itemId ` {v \<in> set xs. P v}) = (\<not> P x)" by simp
qed

text \<open>
  C6.  When the lock is acquired and the cache loads, \<open>cleanupOrphanedVectors\<close> succeeds
  and keeps exactly the records that are not due: it deletes a record if and only if its
  id is in no cache entry, the path before the \<open>::\<close> of its id names nothing on disk,
  and it has aged out, that is, the current time minus the modification time in its
  metadata meets or exceeds one day.  A record in the cache, a record whose file exists,
  a younger record and a record without a modification time all stay.  A modification
  time stored as a string is converted as the subtraction converts it, and a value that
  is not a number counts as aged out, since the comparison with the threshold fails.
\<close>

theorem cleanupOrphanedVectors_decision:
  assumes "acquireLock w = (True, w1)"
    and "loadCache w1 = (Inr c, w2)"
    and "indexCreated w"
    and "distinct (map itemId (items w))"
  shows "\<exists>w'. cleanupOrphanedVectors en w = (Inr (), w') \<and>
           items w' = filter (\<lambda>v. \<not> orphanDue en (concat (map (\<lambda>(k, entry). vectorIds entry) c)) w2 (now w2) v)
                        (items w)"
proof -
  let ?ids = "concat (map (\<lambda>(k, entry). vectorIds entry) c)"
  have s1: "sameData w w1" by (rule acquireLock_sameData [OF assms(1)])
  have w2: "w2 = w1\<lparr> dirs := insert VECTOR_STORE_DIR (dirs w1) \<rparr>"
    using assms(2) by (simp add: loadCache_eq)
  have i2: "indexCreated w2" "items w2 = items w"
    using s1 assms(3) by (simp_all add: w2 sameData_def)
  have d2: "distinct (map itemId (items w2))" using assms(4) i2 by simp
  have g: "getAllVectorIds w1 = (Inr ?ids, w2)"
    by (simp add: getAllVectorIds_def bindW_def assms(2))
  have "cleanupOrphanedVectors en w =
        (Inr (), releaseLock (w2\<lparr> items := filter (\<lambda>x. itemId x \<notin> itemId ` {v \<in> set (items w2). orphanDue en ?ids w2 (now w2) v})
                                  (items w2) \<rparr>))"
    using cleanupLoop_items [OF i2(1) d2, of en ?ids "now w2" "items w2"] i2(1)
    by (simp add: cleanupOrphanedVectors_def assms(1) g bindW_def listItems_def)
  then show ?thesis
    using filter_due_distinct [OF d2, of "orphanDue en ?ids w2 (now w2)"] i2(2)
    by (simp add: releaseLock_def)
qed

lemma cleanupWorld_lock:
  "acquireLock cleanupWorld
   = (True, cleanupWorld\<lparr> vectorStoreLock := True, vectorStoreLockTimeout := Some 200005000 \<rparr>)"
  by (simp add: acquireLock_def acquireLoop.simps cleanupWorld_def emptyWorld_def)

lemma cleanupWorld_cache:
  "loadCache (cleanupWorld\<lparr> vectorStoreLock := True, vectorStoreLockTimeout := Some 200005000 \<rparr>)
   = (Inr sampleCache,
      cleanupWorld\<lparr> vectorStoreLock := True, vectorStoreLockTimeout := Some 200005000,
                    dirs := {VECTOR_STORE_DIR} \<rparr>)"
proof -
  have "distinct (map fst sampleCache)" by (simp add: sampleCache_def)
  then show ?thesis
    by (simp add: loadCache_eq cleanupWorld_def emptyWorld_def parseCache_roundtrip CACHE_FILE_PATH_def)
qed

lemma cleanupWorld_prefix:
  "hd (split ''vault/a.md::0'' ''::'') = ''vault/a.md''"
  "hd (split ''vault/b.md::0'' ''::'') = ''vault/b.md''"
  "hd (split ''vault/c.md::0'' ''::'') = ''vault/c.md''"
  "hd (split ''vault/d.md::0'' ''::'') = ''vault/d.md''"
  "hd (split ''vault/e.md::0'' ''::'') = ''vault/e.md''"
  "hd (split ''vault/f.md::0'' ''::'') = ''vault/f.md''"
  "hd (split ''vault/g.md::0'' ''::'') = ''vault/g.md''"
  by (simp_all add: split_def)

theorem cleanupOrphanedVectors_decision_witness:
  "acquireLock cleanupWorld
     = (True, cleanupWorld\<lparr> vectorStoreLock := True, vectorStoreLockTimeout := Some 200005000 \<rparr>)
   \<and> indexCreated cleanupWorld \<and> distinct (map itemId (items cleanupWorld))
   \<and> (\<exists>w'. cleanupOrphanedVectors underfullEnv cleanupWorld = (Inr (), w') \<and>
             map itemId (items w')
               = [''vault/a.md::0'', ''vault/b.md::0'', ''vault/d.md::0'', ''vault/e.md::0''])"
proof -
  have i: "indexCreated cleanupWorld" by (simp add: cleanupWorld_def)
  have d: "distinct (map itemId (items cleanupWorld))"
    by (simp add: cleanupWorld_def orphanRecord_def)
  have f: "map itemId
      (filter (\<lambda>v. \<not> orphanDue underfullEnv (concat (map (\<lambda>(k, entry). vectorIds entry) sampleCache))
                 (cleanupWorld\<lparr> vectorStoreLock := True, vectorStoreLockTimeout := Some 200005000,
                               dirs := {VECTOR_STORE_DIR} \<rparr>)
                 (now (cleanupWorld\<lparr> vectorStoreLock := True, vectorStoreLockTimeout := Some 200005000,
                               dirs := {VECTOR_STORE_DIR} \<rparr>)) v)
         (items cleanupWorld))
      = [''vault/a.md::0'', ''vault/b.md::0'', ''vault/d.md::0'', ''vault/e.md::0'']"
    by (simp add: cleanupWorld_def emptyWorld_def orphanRecord_def orphanDue_def agedOut_def
        underfullEnv_def sampleToNumber_def sampleCache_def
        cleanupWorld_prefix access_def maxOrphanedAge_def VECTOR_STORE_DIR_def CACHE_FILE_PATH_def)
  from cleanupOrphanedVectors_decision [OF cleanupWorld_lock cleanupWorld_cache i d, of underfullEnv] f
    cleanupWorld_lock i d
  show ?thesis by auto
qed
section \<open>Properties of \<open>storeChunks\<close>\<close>

subsection \<open>One chunk\<close>

lemma removeItem_absent: "find (\<lambda>r. itemId r = i) xs = None \<Longrightarrow> removeItem i xs = xs"
  by (induction xs) (auto split: if_splits)

lemma set_removeItem: "set (removeItem i xs) \<subseteq> set xs"
  by (induction xs) auto

lemma find_None_ids: "find (\<lambda>r. itemId r = i) xs = None \<longleftrightarrow> i \<notin> itemId ` set xs"
  by (induction xs) auto

lemma storeOne_Inr:
  assumes "storeOne en fp k chunk w = (Inr cid, w')"
  shows "cid = chunkIdOf en fp k"
    and "w' = w\<lparr> files := (files w)(textFileOf cid \<mapsto> (chunkText chunk, now w)),
                   items := removeItem cid (items w) @ [vectorDataOf cid chunk],
                   operationCount := operationCount w + 1 \<rparr>"
    and "indexCreated w"
    and "cid \<notin> itemId ` set (removeItem cid (items w))"
proof -
  let ?cid = "chunkIdOf en fp k"
  let ?w1 = "writeFile (textFileOf ?cid) (chunkText chunk) w"
  have ic: "indexCreated w"
    using assms by (auto simp: storeOne_def Let_def getItem_def writeFile_def split: if_splits)
  then show "indexCreated w" .
  have g: "getItem ?cid ?w1 = Inr (find (\<lambda>r. itemId r = ?cid) (items w))"
    using ic by (simp add: getItem_def writeFile_def)
  have s: "storeOne en fp k chunk w =
        bindW (if find (\<lambda>r. itemId r = ?cid) (items w) \<noteq> None
               then bindW (deleteItem ?cid ?w1) (\<lambda>u w2. insertItem (vectorDataOf ?cid chunk) w2)
               else insertItem (vectorDataOf ?cid chunk) ?w1)
          (\<lambda>u w3. (Inr ?cid, w3\<lparr> operationCount := operationCount w3 + 1 \<rparr>))"
    using ic by (simp add: storeOne_def Let_def textFileOf_def getItem_def writeFile_def)
  have id: "itemId (vectorDataOf ?cid chunk) = ?cid" by (simp add: vectorDataOf_def)
  show c: "cid = ?cid"
    using assms unfolding s by (auto simp: bindW_def split: prod.splits sum.splits if_splits)
  have both: "w' = w\<lparr> files := (files w)(textFileOf ?cid \<mapsto> (chunkText chunk, now w)),
                   items := removeItem ?cid (items w) @ [vectorDataOf ?cid chunk],
                   operationCount := operationCount w + 1 \<rparr>
      \<and> ?cid \<notin> itemId ` set (removeItem ?cid (items w))"
  proof (cases "find (\<lambda>r. itemId r = ?cid) (items w) = None")
    case True
    then have "removeItem ?cid (items w) = items w" by (rule removeItem_absent)
    moreover have "?cid \<notin> itemId ` set (items w)" using True by (simp add: find_None_ids)
    ultimately show ?thesis
      using assms True ic unfolding s
      by (auto simp: bindW_def insertItem_def writeFile_def id)
  next
    case False
    have d: "deleteItem ?cid ?w1 = (Inr (), ?w1\<lparr> items := removeItem ?cid (items w) \<rparr>)"
      using ic by (simp add: deleteItem_def writeFile_def)
    show ?thesis
    proof (cases "find (\<lambda>x. itemId x = ?cid) (removeItem ?cid (items w)) = None")
      case True
      then have "?cid \<notin> itemId ` set (removeItem ?cid (items w))" by (simp add: find_None_ids)
      then show ?thesis
        using assms False True ic unfolding s
        by (auto simp: bindW_def deleteItem_def insertItem_def writeFile_def id)
    next
      case nf: False
      then show ?thesis
        using assms False ic unfolding s
        by (auto simp: bindW_def deleteItem_def insertItem_def writeFile_def id)
    qed
  qed
  from both c show "w' = w\<lparr> files := (files w)(textFileOf cid \<mapsto> (chunkText chunk, now w)),
                   items := removeItem cid (items w) @ [vectorDataOf cid chunk],
                   operationCount := operationCount w + 1 \<rparr>"
    by simp
  from both c show "cid \<notin> itemId ` set (removeItem cid (items w))" by simp
qed


subsection \<open>Ids and side files of different indices differ\<close>

lemma replaceFirst_absent:
  "pat \<noteq> [] \<Longrightarrow> last pat \<notin> set s \<Longrightarrow> replaceFirst s pat rep = s"
proof (induction s)
  case Nil
  then show ?case by simp
next
  case (Cons c cs)
  have "\<not> prefix pat (c # cs)"
  proof
    assume "prefix pat (c # cs)"
    then have "set pat \<subseteq> set (c # cs)" by (rule set_mono_prefix)
    moreover have "last pat \<in> set pat" using Cons.prems(1) by simp
    ultimately show False using Cons.prems(2) by blast
  qed
  with Cons show ?case by simp
qed

lemma replaceFirst_append:
  assumes "pat \<noteq> []" and "last pat \<notin> set suf"
  shows "replaceFirst (s @ suf) pat rep = replaceFirst s pat rep @ suf"
proof (induction s)
  case Nil
  show ?case using assms by (simp add: replaceFirst_absent)
next
  case (Cons c s)
  have p: "prefix pat ((c # s) @ suf) \<longleftrightarrow> prefix pat (c # s)"
  proof
    assume "prefix pat ((c # s) @ suf)"
    then consider "prefix pat (c # s)" | us where "pat = (c # s) @ us" "prefix us suf"
      unfolding prefix_append by blast
    then show "prefix pat (c # s)"
    proof cases
      case 1
      then show ?thesis .
    next
      case 2
      show ?thesis
      proof (cases "us = []")
        case True
        with 2 show ?thesis by simp
      next
        case False
        with 2 have "last pat = last us" by simp
        moreover have "last us \<in> set suf"
          using False 2(2) set_mono_prefix [of us suf] by auto
        ultimately show ?thesis using assms(2) by simp
      qed
    qed
  next
    assume "prefix pat (c # s)"
    then show "prefix pat ((c # s) @ suf)" by (rule prefix_prefix)
  qed
  show ?case
  proof (cases "prefix pat (c # s)")
    case True
    then have "length pat \<le> length (c # s)" by (rule prefix_length_le)
    then have "drop (length pat) ((c # s) @ suf) = drop (length pat) (c # s) @ suf"
      by (simp only: drop_append) simp
    then show ?thesis using True p by simp
  next
    case False
    then show ?thesis using p Cons.IH by simp
  qed
qed

lemma digit_not_separator:
  "isDigit c \<Longrightarrow> c \<noteq> CHR ''/'' \<and> c \<noteq> CHR '':'' \<and> c \<noteq> CHR 0x5C"
  by (auto simp: isDigit_def)

lemma showNat_inj:
  assumes "showNat a = showNat b"
  shows "a = b"
proof -
  have "digitsVal (showNat a) = digitsVal (showNat b)" by (simp only: assms)
  then show ?thesis by (simp only: digitsVal_showNat)
qed

lemma normalize_chunkId:
  "normalizePathForStorage (rel @ ''::'' @ showNat k)
   = normalizePathForStorage rel @ ''__'' @ showNat k"
proof -
  have d: "\<forall>c \<in> set (showNat k). c \<noteq> CHR ''/'' \<and> c \<noteq> CHR '':'' \<and> c \<noteq> CHR 0x5C"
    using showNat_digits [of k] digit_not_separator by blast
  then have "last ''vault/'' \<notin> set (''::'' @ showNat k)" by auto
  then have "replaceFirst (rel @ ''::'' @ showNat k) ''vault/'' []
             = replaceFirst rel ''vault/'' [] @ ''::'' @ showNat k"
    by (intro replaceFirst_append) simp_all
  moreover have "map (\<lambda>c. if c = CHR 0x5C \<or> c = CHR ''/'' \<or> c = CHR '':'' then CHR ''_'' else c)
                   (showNat k) = showNat k"
    using d by (simp add: map_idI)
  ultimately show ?thesis by (simp add: normalizePathForStorage_def)
qed

lemma chunkIdOf_inj:
  assumes "chunkIdOf en fp a = chunkIdOf en fp b"
  shows "a = b"
proof (rule showNat_inj)
  from assms show "showNat a = showNat b" unfolding chunkIdOf_def by (simp only: same_append_eq)
qed

lemma textFileOf_chunkId_inj:
  assumes "textFileOf (chunkIdOf en fp a) = textFileOf (chunkIdOf en fp b)"
  shows "a = b"
proof (rule showNat_inj)
  from assms have "showNat a @ ''.txt'' = showNat b @ ''.txt''"
    unfolding textFileOf_def chunkIdOf_def normalize_chunkId
    by (simp only: same_append_eq append_assoc)
  then show "showNat a = showNat b" by (simp only: append_same_eq)
qed

subsection \<open>The loop over the chunks\<close>

lemma removeItem_other: "itemId r \<noteq> i \<Longrightarrow> r \<in> set (removeItem i xs) \<longleftrightarrow> r \<in> set xs"
  by (induction xs) auto

lemma storeOne_storedAs:
  assumes "storeOne en fp k chunk w = (Inr cid, w')"
  shows "storedAs en fp k [chunk] w w'"
proof -
  note s = storeOne_Inr [OF assms]
  have m: "itemId (vectorDataOf cid chunk) = cid"
    by (simp add: vectorDataOf_def)
  have a: "\<forall>r \<in> set (items w'). itemId r = cid \<longrightarrow> r = vectorDataOf cid chunk"
  proof (intro ballI impI)
    fix r assume "r \<in> set (items w')" and i: "itemId r = cid"
    then consider "r = vectorDataOf cid chunk" | "r \<in> set (removeItem cid (items w))"
      by (auto simp: s(2))
    then show "r = vectorDataOf cid chunk"
    proof cases
      case 1
      then show ?thesis .
    next
      case 2
      with s(4) i show ?thesis by auto
    qed
  qed
  have b: "\<forall>r. itemId r \<noteq> cid \<longrightarrow> (r \<in> set (items w') \<longleftrightarrow> r \<in> set (items w))"
    using m by (auto simp: s(2) removeItem_other)
  have c: "vectorDataOf cid chunk \<in> set (items w')" by (simp add: s(2))
  from a b c show ?thesis
    by (simp add: storedAs_def s(1) [symmetric]) (simp add: s(2))
qed

lemma storedAs_Cons:
  assumes one: "storedAs en fp k [c] w w1" and rest: "storedAs en fp (Suc k) cs w1 w'"
  shows "storedAs en fp k (c # cs) w w'"
proof -
  let ?id = "chunkIdOf en fp"
  have inj: "\<And>i j. ?id i = ?id j \<longleftrightarrow> i = j" using chunkIdOf_inj by blast
  have tinj: "\<And>i j. textFileOf (?id i) = textFileOf (?id j) \<longleftrightarrow> i = j"
    using textFileOf_chunkId_inj by blast
  have k_out: "?id k \<notin> ?id ` {Suc k..<Suc k + length cs}" by (auto simp: inj)
  have tk_out: "textFileOf (?id k) \<notin> textFileOf ` ?id ` {Suc k..<Suc k + length cs}"
    by (auto simp: tinj)
  have range: "{k..<k + length (c # cs)} = insert k {Suc k..<Suc k + length cs}" by auto
  have p1: "\<forall>j < length (c # cs). vectorDataOf (?id (k + j)) ((c # cs) ! j) \<in> set (items w')"
  proof (intro allI impI)
    fix j assume j: "j < length (c # cs)"
    show "vectorDataOf (?id (k + j)) ((c # cs) ! j) \<in> set (items w')"
    proof (cases j)
      case 0
      from one have "vectorDataOf (?id k) c \<in> set (items w1)" by (simp add: storedAs_def)
      moreover have "itemId (vectorDataOf (?id k) c) \<notin> ?id ` {Suc k..<Suc k + length cs}"
        using k_out by (simp add: vectorDataOf_def)
      ultimately show ?thesis using rest 0 by (simp add: storedAs_def)
    next
      case (Suc i)
      with j rest show ?thesis by (simp add: storedAs_def)
    qed
  qed
  have p2: "\<forall>r \<in> set (items w'). \<forall>j < length (c # cs).
      itemId r = ?id (k + j) \<longrightarrow> r = vectorDataOf (itemId r) ((c # cs) ! j)"
  proof (intro ballI allI impI)
    fix r j assume r: "r \<in> set (items w')" and j: "j < length (c # cs)" and i: "itemId r = ?id (k + j)"
    show "r = vectorDataOf (itemId r) ((c # cs) ! j)"
    proof (cases j)
      case 0
      with i k_out have "itemId r \<notin> ?id ` {Suc k..<Suc k + length cs}" by simp
      with rest r have "r \<in> set (items w1)" by (simp add: storedAs_def)
      with one i 0 show ?thesis by (simp add: storedAs_def)
    next
      case (Suc i')
      with j i rest r show ?thesis by (simp add: storedAs_def)
    qed
  qed
  have p3: "\<forall>r. itemId r \<notin> ?id ` {k..<k + length (c # cs)} \<longrightarrow>
      (r \<in> set (items w') \<longleftrightarrow> r \<in> set (items w))"
  proof (intro allI impI)
    fix r :: vectorRecord
    assume "itemId r \<notin> ?id ` {k..<k + length (c # cs)}"
    then have a: "itemId r \<noteq> ?id k" and b: "itemId r \<notin> ?id ` {Suc k..<Suc k + length cs}"
      unfolding range by auto
    from rest b have "r \<in> set (items w') \<longleftrightarrow> r \<in> set (items w1)" by (simp add: storedAs_def)
    also from one a have "\<dots> \<longleftrightarrow> r \<in> set (items w)" by (simp add: storedAs_def)
    finally show "r \<in> set (items w') \<longleftrightarrow> r \<in> set (items w)" .
  qed
  have n1: "now w1 = now w" using one by (simp add: storedAs_def)
  have p4: "\<forall>j < length (c # cs).
      files w' (textFileOf (?id (k + j))) = Some (chunkText ((c # cs) ! j), now w)"
  proof (intro allI impI)
    fix j assume j: "j < length (c # cs)"
    show "files w' (textFileOf (?id (k + j))) = Some (chunkText ((c # cs) ! j), now w)"
    proof (cases j)
      case 0
      from rest tk_out have "files w' (textFileOf (?id k)) = files w1 (textFileOf (?id k))"
        by (simp add: storedAs_def)
      with one 0 show ?thesis by (simp add: storedAs_def)
    next
      case (Suc i)
      with j rest n1 show ?thesis by (simp add: storedAs_def)
    qed
  qed
  have p5: "\<forall>p. p \<notin> textFileOf ` ?id ` {k..<k + length (c # cs)} \<longrightarrow> files w' p = files w p"
  proof (intro allI impI)
    fix p assume "p \<notin> textFileOf ` ?id ` {k..<k + length (c # cs)}"
    then have a: "p \<notin> textFileOf ` ?id ` {k..<k + length [c]}"
      and b: "p \<notin> textFileOf ` ?id ` {Suc k..<Suc k + length cs}"
      unfolding range by auto
    from rest b have "files w' p = files w1 p" by (simp add: storedAs_def)
    also from one a have "\<dots> = files w p" unfolding storedAs_def by blast
    finally show "files w' p = files w p" .
  qed
  have p6: "dirs w' = dirs w \<and> now w' = now w \<and> indexCreated w' = indexCreated w \<and>
      updating w' = updating w \<and> requests w' = requests w \<and>
      lastBackupTime w' = lastBackupTime w \<and> vectorStoreLock w' = vectorStoreLock w \<and>
      vectorStoreLockTimeout w' = vectorStoreLockTimeout w \<and>
      operationCount w' = operationCount w + length (c # cs)"
    using one rest by (simp add: storedAs_def)
  show ?thesis
    unfolding storedAs_def using p1 p2 p3 p4 p5 p6 by blast
qed

lemma storedAs_Nil: "storedAs en fp k [] w w"
  by (simp add: storedAs_def)

lemma storeLoop_storedAs:
  "storeLoop en fp k cs gen w = (Inr ids, w') \<Longrightarrow>
     ids = gen @ map (chunkIdOf en fp) [k..<k + length cs] \<and> storedAs en fp k cs w w'"
proof (induction cs arbitrary: k gen w)
  case Nil
  then show ?case by (simp add: storedAs_Nil)
next
  case (Cons c cs)
  from Cons.prems obtain cid w1 where
    one: "storeOne en fp k c w = (Inr cid, w1)"
    and rest: "storeLoop en fp (Suc k) cs (gen @ [cid]) w1 = (Inr ids, w')"
    by (auto simp: bindW_def split: prod.splits sum.splits)
  from Cons.IH [OF rest] have ih: "ids = (gen @ [cid]) @ map (chunkIdOf en fp) [Suc k..<Suc k + length cs]"
    "storedAs en fp (Suc k) cs w1 w'" by simp_all
  have cid: "cid = chunkIdOf en fp k" using storeOne_Inr(1) [OF one] .
  have "k < k + length (c # cs)" by simp
  from upt_conv_Cons [OF this]
  have "[k..<k + length (c # cs)] = k # [Suc k..<Suc k + length cs]" by simp
  with ih(1) cid have "ids = gen @ map (chunkIdOf en fp) [k..<k + length (c # cs)]" by simp
  moreover have "storedAs en fp k (c # cs) w w'"
    using storedAs_Cons [OF storeOne_storedAs [OF one] ih(2)] .
  ultimately show ?case by simp
qed

subsection \<open>What the maintenance steps keep\<close>

lemma storedAs_holdsChunks: "storedAs en fp 0 cs w w' \<Longrightarrow> holdsChunks en fp cs w'"
  unfolding storedAs_def holdsChunks_def by simp

lemma indexKept_refl: "indexKept w w"
  by (simp add: indexKept_def)

lemma indexKept_trans:
  assumes "indexKept w w1" and "indexKept w1 w2"
  shows "indexKept w w2"
proof -
  have f: "files w2 = files w" using assms by (simp add: indexKept_def)
  have s: "set (items w2) \<subseteq> set (items w)" using assms unfolding indexKept_def by blast
  have k: "\<forall>r \<in> set (items w).
         (\<forall>v \<in> set (items w). itemId v = itemId r \<longrightarrow> map_of (metadata v) ''modifiedTime'' = None)
         \<longrightarrow> r \<in> set (items w2)"
  proof (intro ballI impI)
    fix r assume r: "r \<in> set (items w)"
      and h: "\<forall>v \<in> set (items w). itemId v = itemId r \<longrightarrow> map_of (metadata v) ''modifiedTime'' = None"
    from assms(1) r h have r1: "r \<in> set (items w1)" unfolding indexKept_def by blast
    from assms(1) have "set (items w1) \<subseteq> set (items w)" unfolding indexKept_def by blast
    with h have "\<forall>v \<in> set (items w1). itemId v = itemId r \<longrightarrow> map_of (metadata v) ''modifiedTime'' = None"
      by blast
    with assms(2) r1 show "r \<in> set (items w2)" unfolding indexKept_def by blast
  qed
  from f s k show ?thesis unfolding indexKept_def by blast
qed

lemma sameData_indexKept: "sameData w w' \<Longrightarrow> indexKept w w'"
  by (simp add: sameData_def indexKept_def)

lemma vectorDataOf_fields:
  "itemId (vectorDataOf cid c) = cid" "vector (vectorDataOf cid c) = embedding c"
  "metadata (vectorDataOf cid c) = docMeta cid"
  by (simp_all add: vectorDataOf_def docMeta_def)

lemma docMeta_modifiedTime: "map_of (docMeta cid) ''modifiedTime'' = None"
  by (simp add: docMeta_def)

lemma holdsChunks_kept:
  assumes h: "holdsChunks en fp cs w" and k: "indexKept w w'"
  shows "holdsChunks en fp cs w'"
proof -
  have f: "files w' = files w" and s: "set (items w') \<subseteq> set (items w)"
    using k unfolding indexKept_def by blast+
  have p1: "\<forall>j < length cs. vectorDataOf (chunkIdOf en fp j) (cs ! j) \<in> set (items w')"
  proof (intro allI impI)
    fix j assume j: "j < length cs"
    let ?r = "vectorDataOf (chunkIdOf en fp j) (cs ! j)"
    from h j have r: "?r \<in> set (items w)" unfolding holdsChunks_def by blast
    have "\<forall>v \<in> set (items w). itemId v = itemId ?r \<longrightarrow> map_of (metadata v) ''modifiedTime'' = None"
    proof (intro ballI impI)
      fix v assume v: "v \<in> set (items w)" and i: "itemId v = itemId ?r"
      then have "itemId v = chunkIdOf en fp j" by (simp add: vectorDataOf_fields)
      with h j v have "v = vectorDataOf (itemId v) (cs ! j)" unfolding holdsChunks_def by blast
      then have "metadata v = docMeta (itemId v)" by (metis vectorDataOf_fields(3))
      then show "map_of (metadata v) ''modifiedTime'' = None" by (simp add: docMeta_modifiedTime)
    qed
    with k r show "?r \<in> set (items w')" unfolding indexKept_def by blast
  qed
  have p2: "\<forall>r \<in> set (items w'). \<forall>j < length cs.
         itemId r = chunkIdOf en fp j \<longrightarrow> r = vectorDataOf (itemId r) (cs ! j)"
    using h s unfolding holdsChunks_def by blast
  have p3: "\<forall>j < length cs. \<exists>t.
         files w' (textFileOf (chunkIdOf en fp j)) = Some (chunkText (cs ! j), t)"
    using h f unfolding holdsChunks_def by simp
  from p1 p2 p3 show ?thesis unfolding holdsChunks_def by blast
qed

lemma cleanupLoop_keeps:
  "cleanupLoop en ids n vs w = (res, w') \<Longrightarrow>
     files w' = files w \<and> set (items w') \<subseteq> set (items w) \<and>
     (\<forall>x \<in> set (items w).
        (\<forall>v \<in> set vs. itemId v = itemId x \<longrightarrow> map_of (metadata v) ''modifiedTime'' = None)
        \<longrightarrow> x \<in> set (items w'))"
proof (induction vs arbitrary: w)
  case Nil
  then show ?case by simp
next
  case (Cons v vs)
  show ?case
  proof (cases "orphanDue en ids w n v")
    case False
    from Cons.prems have "cleanupLoop en ids n vs w = (res, w')"
      by (simp only: cleanupLoop_skip [OF False])
    from Cons.IH [OF this] show ?thesis by simp
  next
    case True
    show ?thesis
    proof (cases "indexCreated w")
      case no: False
      from True have "itemId v \<notin> set ids" "\<not> access (hd (split (itemId v) ''::'')) w"
        "\<not> jsLess (jsMinus n (toNumberOf en (modifiedTimeOr (metadata v) n))) maxOrphanedAge"
        unfolding orphanDue_code by blast+
      with no Cons.prems have "w' = w" by (simp add: Let_def bindW_def deleteItem_def)
      then show ?thesis by simp
    next
      case yes: True
      let ?w1 = "w\<lparr> items := removeItem (itemId v) (items w) \<rparr>"
      from Cons.prems have "cleanupLoop en ids n vs ?w1 = (res, w')"
        by (simp only: cleanupLoop_delete [OF True yes])
      from Cons.IH [OF this] have ih: "files w' = files w"
        "set (items w') \<subseteq> set (removeItem (itemId v) (items w))"
        "\<forall>x \<in> set (removeItem (itemId v) (items w)).
           (\<forall>v \<in> set vs. itemId v = itemId x \<longrightarrow> map_of (metadata v) ''modifiedTime'' = None)
           \<longrightarrow> x \<in> set (items w')"
        by simp_all
      from True have m: "map_of (metadata v) ''modifiedTime'' \<noteq> None"
        by (cases "map_of (metadata v) ''modifiedTime''") (simp_all add: orphanDue_def agedOut_def)
      have "\<forall>x \<in> set (items w).
        (\<forall>v' \<in> set (v # vs). itemId v' = itemId x \<longrightarrow> map_of (metadata v') ''modifiedTime'' = None)
        \<longrightarrow> x \<in> set (items w')"
      proof (intro ballI impI)
        fix x assume x: "x \<in> set (items w)"
          and h: "\<forall>v' \<in> set (v # vs). itemId v' = itemId x \<longrightarrow> map_of (metadata v') ''modifiedTime'' = None"
        from h m have "itemId x \<noteq> itemId v" by auto
        with x have "x \<in> set (removeItem (itemId v) (items w))" by (simp add: removeItem_other)
        with ih(3) h show "x \<in> set (items w')" by simp
      qed
      with ih(1,2) set_removeItem [of "itemId v" "items w"] show ?thesis by blast
    qed
  qed
qed

lemma loadCache_indexKept: "loadCache w = (r, w1) \<Longrightarrow> indexKept w w1 \<and> items w1 = items w \<and> indexCreated w1 = indexCreated w"
  using loadCache_world [of w] by (simp add: indexKept_def)

lemma cleanupOrphanedVectors_keeps:
  assumes "cleanupOrphanedVectors en w = (res, w')"
  shows "indexKept w w'"
proof (cases "acquireLock w")
  case (Pair b w1)
  from acquireLock_sameData [OF Pair] have k1: "indexKept w w1" by (rule sameData_indexKept)
  show ?thesis
  proof (cases b)
    case False
    with Pair assms have "w' = w1" by (simp add: cleanupOrphanedVectors_def)
    with k1 show ?thesis by simp
  next
    case True
    obtain rc w2 where lc: "loadCache w1 = (rc, w2)" by (cases "loadCache w1")
    note k2 = loadCache_indexKept [OF lc]
    obtain r3 w3 where body: "bindW (getAllVectorIds w1) (\<lambda>cacheIds w2.
                  case listItems w2 of
                    Inl e \<Rightarrow> (Inl e, w2)
                  | Inr allVectors \<Rightarrow> cleanupLoop en cacheIds (now w2) allVectors w2) = (r3, w3)"
      by (cases "bindW (getAllVectorIds w1) (\<lambda>cacheIds w2.
                  case listItems w2 of
                    Inl e \<Rightarrow> (Inl e, w2)
                  | Inr allVectors \<Rightarrow> cleanupLoop en cacheIds (now w2) allVectors w2)")
    with Pair True assms have w': "w' = releaseLock w3" by (simp add: cleanupOrphanedVectors_def)
    have "indexKept w2 w3"
    proof (cases rc)
      case (Inl e)
      with body lc have "w3 = w2" by (simp add: getAllVectorIds_def bindW_def)
      then show ?thesis by (simp add: indexKept_refl)
    next
      case (Inr c)
      show ?thesis
      proof (cases "indexCreated w2")
        case False
        with body lc Inr have "w3 = w2" by (simp add: getAllVectorIds_def bindW_def listItems_def)
        then show ?thesis by (simp add: indexKept_refl)
      next
        case yes: True
        with body lc Inr have "cleanupLoop en (concat (map (\<lambda>(k, entry). vectorIds entry) c)) (now w2) (items w2) w2 = (r3, w3)"
          by (simp add: getAllVectorIds_def bindW_def listItems_def)
        from cleanupLoop_keeps [OF this] show ?thesis unfolding indexKept_def by blast
      qed
    qed
    with k1 k2 have "indexKept w w3" by (blast intro: indexKept_trans)
    moreover have "indexKept w3 w'" unfolding w' by (rule sameData_indexKept [OF releaseLock_sameData])
    ultimately show ?thesis by (rule indexKept_trans)
  qed
qed

lemma reinsertLoop_Inr:
  "reinsertLoop vs w = (Inr u, w') \<Longrightarrow> w' = w\<lparr> items := items w @ vs \<rparr>"
proof (induction vs arbitrary: w)
  case Nil
  then show ?case by simp
next
  case (Cons v vs)
  have v: "\<lparr> itemId = itemId v, vector = vector v, metadata = metadata v \<rparr> = v" by simp
  from Cons.prems obtain w1 where
    one: "insertItem v w = (Inr (), w1)" and rest: "reinsertLoop vs w1 = (Inr u, w')"
    by (auto simp: v bindW_def split: prod.splits sum.splits)
  from one have "w1 = w\<lparr> items := items w @ [v] \<rparr>"
    by (auto simp: insertItem_def split: if_splits)
  with Cons.IH [OF rest] show ?case by simp
qed

lemma optimizeVectorStore_keeps:
  assumes "optimizeVectorStore w = (Inr u, w')"
  shows "indexKept w w'"
proof (cases "acquireLock w")
  case (Pair b w1)
  note d1 = acquireLock_sameData [OF Pair]
  from assms Pair have b: "b" by (cases b) (simp_all add: optimizeVectorStore_def)
  obtain r w6 where body: "bindW (beginUpdate w1) (\<lambda>u w2.
                  case listItems w2 of
                    Inl e \<Rightarrow> (Inl e, w2)
                  | Inr allVectors \<Rightarrow>
                      bindW (createIndex (deleteIndex w2)) (\<lambda>u w3.
                      bindW (reinsertLoop allVectors w3) (\<lambda>u w4.
                      bindW (endUpdate w4) (\<lambda>u w5. (Inr (), w5\<lparr> operationCount := 0 \<rparr>))))) = (r, w6)"
    by (cases "bindW (beginUpdate w1) (\<lambda>u w2.
                  case listItems w2 of
                    Inl e \<Rightarrow> (Inl e, w2)
                  | Inr allVectors \<Rightarrow>
                      bindW (createIndex (deleteIndex w2)) (\<lambda>u w3.
                      bindW (reinsertLoop allVectors w3) (\<lambda>u w4.
                      bindW (endUpdate w4) (\<lambda>u w5. (Inr (), w5\<lparr> operationCount := 0 \<rparr>)))))")
  with assms Pair b have r: "r = Inr u" and w': "w' = releaseLock w6"
    by (simp_all add: optimizeVectorStore_def)
  from body r have bu: "\<not> updating w1" "indexCreated w1"
    by (auto simp: bindW_def beginUpdate_def split: if_splits)
  let ?w2 = "w1\<lparr> updating := True \<rparr>"
  let ?w3 = "deleteIndex ?w2\<lparr> indexCreated := True, items := [] \<rparr>"
  from body r bu obtain w4 where
    re: "reinsertLoop (items w1) ?w3 = (Inr (), w4)"
    and en: "bindW (endUpdate w4) (\<lambda>u w5. (Inr (), w5\<lparr> operationCount := 0 \<rparr>)) = (Inr u, w6)"
    by (auto simp: bindW_def beginUpdate_def listItems_def createIndex_def deleteIndex_def
             split: prod.splits sum.splits)
  from reinsertLoop_Inr [OF re] have w4: "files w4 = files w1" "items w4 = items w1"
    by (simp_all add: deleteIndex_def)
  from en have "files w6 = files w4 \<and> items w6 = items w4"
    by (auto simp: bindW_def endUpdate_def split: if_splits)
  with w4 have "indexKept w1 w6" by (simp add: indexKept_def)
  moreover have "indexKept w6 w'" unfolding w' by (rule sameData_indexKept [OF releaseLock_sameData])
  ultimately show ?thesis using sameData_indexKept [OF d1] by (blast intro: indexKept_trans)
qed

lemma backupVectorStore_keeps: "indexKept w (backupVectorStore w)"
proof -
  obtain r w1 where lc: "loadCache w = (r, w1)" by (cases "loadCache w")
  from loadCache_indexKept [OF lc] have k: "indexKept w w1" by simp
  then have "indexKept w (w1\<lparr> lastBackupTime := now w \<rparr>)" by (simp add: indexKept_def)
  with k lc show ?thesis
    by (simp add: backupVectorStore_def indexKept_refl split: sum.splits)
qed

lemma storeUpdate_holds:
  assumes "storeUpdate en fp cs w = (Inr ids, w')"
  shows "ids = map (chunkIdOf en fp) [0..<length cs] \<and> holdsChunks en fp cs w'"
proof -
  obtain r w4 where body: "bindW (beginUpdate w) (\<lambda>u w1.
             case listItems w1 of
               Inl e \<Rightarrow> (Inl e, w1)
             | Inr existingVectors \<Rightarrow>
                 (let existingIds =
                        remdups (map itemId (filter (\<lambda>v. startsWith (itemId v) fp) existingVectors));
                      w2 = foldl (\<lambda>w' i. snd (deleteItem i w')) w1 existingIds;
                      w3 = sleep 100 w2
                  in storeLoop en fp 0 cs [] w3)) = (r, w4)"
    by (cases "bindW (beginUpdate w) (\<lambda>u w1.
             case listItems w1 of
               Inl e \<Rightarrow> (Inl e, w1)
             | Inr existingVectors \<Rightarrow>
                 (let existingIds =
                        remdups (map itemId (filter (\<lambda>v. startsWith (itemId v) fp) existingVectors));
                      w2 = foldl (\<lambda>w' i. snd (deleteItem i w')) w1 existingIds;
                      w3 = sleep 100 w2
                  in storeLoop en fp 0 cs [] w3))")
  with assms have r: "r = Inr ids" and w': "w' = w4\<lparr> updating := False \<rparr>"
    by (auto simp: storeUpdate_def endUpdate_def split: if_splits)
  from body r obtain w3 where "storeLoop en fp 0 cs [] w3 = (Inr ids, w4)"
    by (auto simp: bindW_def Let_def split: prod.splits sum.splits)
  from storeLoop_storedAs [OF this] have "ids = map (chunkIdOf en fp) [0..<length cs]"
    and "holdsChunks en fp cs w4" by (auto intro: storedAs_holdsChunks)
  moreover have "indexKept w4 w'" unfolding w' by (simp add: indexKept_def)
  ultimately show ?thesis by (simp add: holdsChunks_kept)
qed

lemma storeChunks_holds:
  assumes "storeChunks en fp cs w = (Inr ids, w')"
  shows "ids = map (chunkIdOf en fp) [0..<length cs] \<and> holdsChunks en fp cs w'"
proof (cases "acquireLock w")
  case (Pair b w1)
  from assms Pair have b: "b" by (cases b) (simp_all add: storeChunks_def)
  let ?w2 = "mkdir TEXT_FILES_DIR (mkdir VECTOR_STORE_DIR w1)"
  obtain r w7 where body: "bindW (if \<not> indexCreated ?w2 then createIndex ?w2 else (Inr (), ?w2)) (\<lambda>u w3.
              bindW (storeUpdate en fp cs w3) (\<lambda>generatedIds w4.
              bindW (if optimizationThreshold \<le> operationCount w4 then optimizeVectorStore w4
                     else (Inr (), w4)) (\<lambda>u w5.
              bindW (cleanupOrphanedVectors en (backupVectorStore w5)) (\<lambda>u w6.
                (Inr generatedIds, w6))))) = (r, w7)"
    by (cases "bindW (if \<not> indexCreated ?w2 then createIndex ?w2 else (Inr (), ?w2)) (\<lambda>u w3.
              bindW (storeUpdate en fp cs w3) (\<lambda>generatedIds w4.
              bindW (if optimizationThreshold \<le> operationCount w4 then optimizeVectorStore w4
                     else (Inr (), w4)) (\<lambda>u w5.
              bindW (cleanupOrphanedVectors en (backupVectorStore w5)) (\<lambda>u w6.
                (Inr generatedIds, w6)))))")
  with assms Pair b have r: "r = Inr ids" and w': "w' = releaseLock w7"
    by (simp_all add: storeChunks_def Let_def)
  from body r obtain w3 w4 w5 u where
    su: "storeUpdate en fp cs w3 = (Inr ids, w4)"
    and op: "(if optimizationThreshold \<le> operationCount w4 then optimizeVectorStore w4
                     else (Inr (), w4)) = (Inr u, w5)"
    and cl: "cleanupOrphanedVectors en (backupVectorStore w5) = (Inr u, w7)"
    by (auto simp: bindW_def split: prod.splits sum.splits)
  from storeUpdate_holds [OF su] have ids: "ids = map (chunkIdOf en fp) [0..<length cs]"
    and h4: "holdsChunks en fp cs w4" by simp_all
  have "indexKept w4 w5"
    using op optimizeVectorStore_keeps [of w4 u w5] by (auto simp: indexKept_refl split: if_splits)
  moreover have "indexKept w5 (backupVectorStore w5)" by (rule backupVectorStore_keeps)
  moreover have "indexKept (backupVectorStore w5) w7" by (rule cleanupOrphanedVectors_keeps [OF cl])
  moreover have "indexKept w7 w'" unfolding w' by (rule sameData_indexKept [OF releaseLock_sameData])
  ultimately have "indexKept w4 w'" by (blast intro: indexKept_trans)
  with h4 ids show ?thesis by (simp add: holdsChunks_kept)
qed

subsection \<open>A first store on the empty world\<close>

lemma sample_chunkId: "chunkIdOf underfullEnv ''/app/vault/a.md'' 0 = ''vault/a.md::0''"
  by (simp add: chunkIdOf_def underfullEnv_def relativeBelow_def startsWith_def showNat.simps digitChar_def)

lemma sample_normalize: "normalizePathForStorage ''vault/a.md::0'' = ''a.md__0''"
  by (simp add: normalizePathForStorage_def replaceFirst.simps)

lemma sample_prefix: "hd (split ''vault/a.md::0'' ''::'') = ''vault/a.md''"
  by (simp add: split_def)

lemma sample_wait:
  "acquireLock (w\<lparr> now := 100, vectorStoreLock := True, vectorStoreLockTimeout := Some 5000 \<rparr>)
   = (True, w\<lparr> now := 5000, vectorStoreLock := True, vectorStoreLockTimeout := Some 10000 \<rparr>)"
  by (simp add: acquireLock_def acquireLoop.simps sleep_def Let_def)



lemma sample_store1:
  "storeChunks underfullEnv ''/app/vault/a.md'' [zeroEmbedded ''# A''] emptyWorld =
     (Inr [''vault/a.md::0''],
      storedWorld [''db/text_files/a.md__0.txt'' \<mapsto> (''# A'', 100)]
        [vectorDataOf ''vault/a.md::0'' (zeroEmbedded ''# A'')])"
  by (simp add: storeChunks_def acquireLock_def acquireLoop.simps emptyWorld_def storedWorld_def
      mkdir_def createIndex_def bindW_def storeUpdate_def beginUpdate_def listItems_def Let_def
      sleep_def storeOne_def sample_chunkId sample_normalize writeFile_def getItem_def insertItem_def
      endUpdate_def optimizationThreshold_def backupVectorStore_def backupInterval_def
      cleanupOrphanedVectors_def sample_wait getAllVectorIds_def loadCache_eq CACHE_FILE_PATH_def
      TEXT_FILES_DIR_def VECTOR_STORE_DIR_def sample_prefix access_def modifiedTimeOr_def
      vectorDataOf_def maxOrphanedAge_def releaseLock_def insert_commute zeroEmbedded_def)


subsection \<open>The metadata of the stored records\<close>

lemma matchesFilter_absent:
  assumes "key \<in> fst ` set flt" and "map_of md key = None"
  shows "\<not> matchesFilter flt md"
proof -
  from assms(1) obtain v where kv: "(key, v) \<in> set flt" by auto
  have "\<not> (case (key, v) of (key, v) \<Rightarrow>
        case v of
          FList vs \<Rightarrow> (case map_of md key of None \<Rightarrow> False | Some x \<Rightarrow> x \<in> set vs)
        | FVal x \<Rightarrow> map_of md key = Some x)"
    using assms(2) by (cases v) simp_all
  with kv show ?thesis unfolding matchesFilter_def list_all_iff by blast
qed

lemma docMeta_keys: "key \<noteq> ''documentId'' \<Longrightarrow> map_of (docMeta cid) key = None"
  by (simp add: docMeta_def)

lemma holdsChunks_present:
  assumes "holdsChunks en fp cs w" and "k < length cs"
  shows "vectorDataOf (chunkIdOf en fp k) (cs ! k) \<in> set (items w)"
    and "\<exists>t. files w (textFileOf (chunkIdOf en fp k)) = Some (chunkText (cs ! k), t)"
  using assms unfolding holdsChunks_def by blast+

lemma holdsChunks_record:
  assumes "holdsChunks en fp cs w" and "r \<in> set (items w)"
    and "itemId r \<in> set (map (chunkIdOf en fp) [0..<length cs])"
  shows "metadata r = docMeta (itemId r)"
proof -
  from assms(3) obtain j where j: "j < length cs" "itemId r = chunkIdOf en fp j" by auto
  with assms(1,2) have "r = vectorDataOf (itemId r) (cs ! j)" unfolding holdsChunks_def by blast
  then show ?thesis by (metis vectorDataOf_fields(3))
qed

text \<open>
  C9.  When \<open>storeChunks\<close> succeeds, the ids it returns are the path relative to the
  working directory followed by \<open>::\<close> and the position of the chunk; the index holds a
  record under each of them; and the metadata of every record under one of these ids
  consist of the one field \<open>documentId\<close>, the sanitized path of the side file.  So a
  metadata filter that constrains any other key (\<open>filePath\<close>, \<open>heading\<close>,
  \<open>chunkIndex\<close>, \<open>modifiedTime\<close>, a frontmatter key) matches none of these records,
  and orphan cleanup finds no modification time on them: it takes the current time in
  its place, and the record has not aged out at any time.
\<close>

theorem storeChunks_metadata:
  assumes "storeChunks en fp cs w = (Inr ids, w')"
  shows "ids = map (chunkIdOf en fp) [0..<length cs] \<and>
         (\<forall>i \<in> set ids. \<exists>r \<in> set (items w'). itemId r = i) \<and>
         (\<forall>r \<in> set (items w'). itemId r \<in> set ids \<longrightarrow>
            metadata r = [(''documentId'', MStr (''text_files/'' @ normalizePathForStorage (itemId r)))] \<and>
            (\<forall>flt key. key \<in> fst ` set flt \<and> key \<noteq> ''documentId'' \<longrightarrow> \<not> matchesFilter flt (metadata r)) \<and>
            (\<forall>n. modifiedTimeOr (metadata r) n = MNum n \<and> \<not> agedOut en n r))"
proof -
  from storeChunks_holds [OF assms] have ids: "ids = map (chunkIdOf en fp) [0..<length cs]"
    and h: "holdsChunks en fp cs w'" by simp_all
  have p: "\<forall>i \<in> set ids. \<exists>r \<in> set (items w'). itemId r = i"
  proof
    fix i assume "i \<in> set ids"
    with ids obtain k where k: "k < length cs" "i = chunkIdOf en fp k" by auto
    from holdsChunks_present(1) [OF h k(1)] k(2) show "\<exists>r \<in> set (items w'). itemId r = i"
      by (metis vectorDataOf_fields(1))
  qed
  have m: "\<forall>r \<in> set (items w'). itemId r \<in> set ids \<longrightarrow>
            metadata r = [(''documentId'', MStr (''text_files/'' @ normalizePathForStorage (itemId r)))] \<and>
            (\<forall>flt key. key \<in> fst ` set flt \<and> key \<noteq> ''documentId'' \<longrightarrow> \<not> matchesFilter flt (metadata r)) \<and>
            (\<forall>n. modifiedTimeOr (metadata r) n = MNum n \<and> \<not> agedOut en n r)"
  proof (intro ballI impI)
    fix r assume r: "r \<in> set (items w')" and i: "itemId r \<in> set ids"
    from holdsChunks_record [OF h r] i ids have md: "metadata r = docMeta (itemId r)" by simp
    have a: "metadata r = [(''documentId'', MStr (''text_files/'' @ normalizePathForStorage (itemId r)))]"
      using md by (simp add: docMeta_def)
    have b: "\<forall>flt key. key \<in> fst ` set flt \<and> key \<noteq> ''documentId'' \<longrightarrow> \<not> matchesFilter flt (metadata r)"
    proof (intro allI impI)
      fix flt :: "(string \<times> fval) list" and key
      assume k: "key \<in> fst ` set flt \<and> key \<noteq> ''documentId''"
      then have "map_of (metadata r) key = None" using md by (simp add: docMeta_keys)
      with k matchesFilter_absent [of key flt "metadata r"]
      show "\<not> matchesFilter flt (metadata r)" by simp
    qed
    have c: "\<forall>n. modifiedTimeOr (metadata r) n = MNum n \<and> \<not> agedOut en n r"
      using md by (simp add: modifiedTimeOr_def agedOut_def docMeta_modifiedTime)
    from a b c show "metadata r = [(''documentId'', MStr (''text_files/'' @ normalizePathForStorage (itemId r)))] \<and>
            (\<forall>flt key. key \<in> fst ` set flt \<and> key \<noteq> ''documentId'' \<longrightarrow> \<not> matchesFilter flt (metadata r)) \<and>
            (\<forall>n. modifiedTimeOr (metadata r) n = MNum n \<and> \<not> agedOut en n r)"
      by blast
  qed
  from ids p m show ?thesis by blast
qed

theorem storeChunks_metadata_witness:
  "storeChunks underfullEnv ''/app/vault/a.md'' [zeroEmbedded ''# A''] emptyWorld =
     (Inr [''vault/a.md::0''],
      storedWorld [''db/text_files/a.md__0.txt'' \<mapsto> (''# A'', 100)]
        [vectorDataOf ''vault/a.md::0'' (zeroEmbedded ''# A'')])
   \<and> map itemId (items (storedWorld [''db/text_files/a.md__0.txt'' \<mapsto> (''# A'', 100)]
        [vectorDataOf ''vault/a.md::0'' (zeroEmbedded ''# A'')])) = [''vault/a.md::0'']
   \<and> metadata (vectorDataOf ''vault/a.md::0'' (zeroEmbedded ''# A''))
       = [(''documentId'', MStr ''text_files/a.md__0'')]
   \<and> \<not> matchesFilter [(''filePath'', FVal (MStr ''vault/a.md''))]
         (metadata (vectorDataOf ''vault/a.md::0'' (zeroEmbedded ''# A'')))
   \<and> modifiedTimeOr (metadata (vectorDataOf ''vault/a.md::0'' (zeroEmbedded ''# A''))) 5000 = MNum 5000
   \<and> \<not> agedOut underfullEnv 5000 (vectorDataOf ''vault/a.md::0'' (zeroEmbedded ''# A''))"
proof -
  let ?r = "vectorDataOf ''vault/a.md::0'' (zeroEmbedded ''# A'')"
  let ?w = "storedWorld [''db/text_files/a.md__0.txt'' \<mapsto> (''# A'', 100)] [?r]"
  note t = storeChunks_metadata [OF sample_store1]
  have r: "?r \<in> set (items ?w)" "itemId ?r \<in> set [''vault/a.md::0'']"
    by (simp_all add: storedWorld_def vectorDataOf_def)
  have k: "''filePath'' \<in> fst ` set [(''filePath'', FVal (MStr ''vault/a.md''))] \<and> ''filePath'' \<noteq> ''documentId''"
    by simp
  from t r have "metadata ?r = [(''documentId'', MStr (''text_files/'' @ normalizePathForStorage (itemId ?r)))] \<and>
            (\<forall>flt key. key \<in> fst ` set flt \<and> key \<noteq> ''documentId'' \<longrightarrow> \<not> matchesFilter flt (metadata ?r)) \<and>
            (\<forall>n. modifiedTimeOr (metadata ?r) n = MNum n \<and> \<not> agedOut underfullEnv n ?r)"
    by blast
  with k have "metadata ?r = [(''documentId'', MStr (''text_files/'' @ normalizePathForStorage (itemId ?r)))]"
    "\<not> matchesFilter [(''filePath'', FVal (MStr ''vault/a.md''))] (metadata ?r)"
    "modifiedTimeOr (metadata ?r) 5000 = MNum 5000" "\<not> agedOut underfullEnv 5000 ?r"
    by blast+
  moreover have "itemId ?r = ''vault/a.md::0''" by (simp add: vectorDataOf_def)
  ultimately show ?thesis
    using sample_store1 by (simp add: sample_normalize storedWorld_def)
qed

subsection \<open>The order of the output of \<open>embedChunks\<close>\<close>









section \<open>Properties of file processing\<close>

text \<open>
  C3.  Let the cache on disk hold an entry for the path whose hash is the hash of the
  file's content.  If the entry's modification time is the file's, processing an \<open>add\<close> event makes
  no embedding request, leaves the index and every file as they are, and returns.  If
  the time differs, it makes no embedding request and leaves the index as it is; the
  cache that a later \<open>loadCache\<close> reads is the old one with the modification time of
  this entry replaced (same keys, same hash, same vector ids), and no file other than
  the cache file and its two side files is touched.
\<close>

theorem processFile_unchanged_content:
  assumes "files w filePath = Some (content, mtimeMs)"
    and "fst (loadCache w) = Inr c"
    and "map_of c filePath = Some cf"
    and "contentHash cf = sha256 en content"
  shows "(modifiedTime cf = mtimeMs \<longrightarrow>
            (\<exists>w'. processEvent en ''add'' filePath w = Some (Inr (), w') \<and> requests w' = requests w \<and>
                  items w' = items w \<and> indexCreated w' = indexCreated w \<and> files w' = files w))
       \<and> (modifiedTime cf \<noteq> mtimeMs \<longrightarrow>
            (\<exists>w'. processEvent en ''add'' filePath w = Some (Inr (), w') \<and> requests w' = requests w \<and>
                  items w' = items w \<and> indexCreated w' = indexCreated w \<and>
                  fst (loadCache w') = Inr (AList.update filePath (cf\<lparr> modifiedTime := mtimeMs \<rparr>) c) \<and>
                  map fst (AList.update filePath (cf\<lparr> modifiedTime := mtimeMs \<rparr>) c) = map fst c \<and>
                  (\<forall>p. p \<noteq> CACHE_FILE_PATH \<and> p \<noteq> CACHE_FILE_PATH @ ''.tmp'' \<and>
                       p \<noteq> CACHE_FILE_PATH @ ''.bak'' \<longrightarrow> files w' p = files w p)))"
proof -
  obtain w1 where l: "loadCache w = (Inr c, w1)" and w1: "w1 = w\<lparr> dirs := insert VECTOR_STORE_DIR (dirs w) \<rparr>"
    using assms(2) loadCache_world [of w] by (cases "loadCache w") auto
  have st: "stat filePath w = Inr mtimeMs" and rd: "readFile filePath w1 = Inr content"
    using assms(1) w1 by (simp_all add: stat_def readFile_def)
  have key: "filePath \<in> fst ` set c" using assms(3) map_of_eq_None_iff [of c filePath] by auto
  have d: "distinct (map fst (AList.update filePath (cf\<lparr> modifiedTime := mtimeMs \<rparr>) c))"
    using loadCache_distinct [OF assms(2)] by (simp add: distinct_update)
  show ?thesis
  proof (intro conjI impI)
    assume "modifiedTime cf = mtimeMs"
    then have "processEvent en ''add'' filePath w = Some (Inr (), w1)"
      using st l rd assms(3,4) by (simp add: processEvent_def processFile_def)
    then show "\<exists>w'. processEvent en ''add'' filePath w = Some (Inr (), w') \<and> requests w' = requests w \<and>
                  items w' = items w \<and> indexCreated w' = indexCreated w \<and> files w' = files w"
      by (simp add: w1)
  next
    assume "modifiedTime cf \<noteq> mtimeMs"
    let ?c' = "AList.update filePath (cf\<lparr> modifiedTime := mtimeMs \<rparr>) c"
    have "processEvent en ''add'' filePath w = Some (Inr (), snd (saveCache ?c' w1))"
      using \<open>modifiedTime cf \<noteq> mtimeMs\<close> st l rd assms(3,4)
      by (simp add: processEvent_def processFile_def)
    moreover have "map fst ?c' = map fst c" using key by (simp add: update_keys)
    ultimately show "\<exists>w'. processEvent en ''add'' filePath w = Some (Inr (), w') \<and> requests w' = requests w \<and>
                  items w' = items w \<and> indexCreated w' = indexCreated w \<and>
                  fst (loadCache w') = Inr ?c' \<and> map fst ?c' = map fst c \<and>
                  (\<forall>p. p \<noteq> CACHE_FILE_PATH \<and> p \<noteq> CACHE_FILE_PATH @ ''.tmp'' \<and>
                       p \<noteq> CACHE_FILE_PATH @ ''.bak'' \<longrightarrow> files w' p = files w p)"
      using loadCache_saveCache [OF d, of w1]
      by (simp add: saveCache_eq savedFiles_def w1)
  qed
qed


lemma cachedWorld_loadCache: "fst (loadCache (cachedWorld m)) = Inr sampleCache"
proof -
  have "distinct (map fst sampleCache)" by (simp add: sampleCache_def)
  then show ?thesis
    by (simp add: loadCache_eq cachedWorld_def emptyWorld_def parseCache_roundtrip)
qed

theorem processFile_unchanged_content_witness:
  "files (cachedWorld 1700000000000) ''vault/a.md'' = Some (''# A'', 1700000000000)
   \<and> files (cachedWorld 1700000000500) ''vault/a.md'' = Some (''# A'', 1700000000500)
   \<and> fst (loadCache (cachedWorld 1700000000500)) = Inr sampleCache
   \<and> map_of sampleCache ''vault/a.md'' = Some (snd (hd sampleCache))
   \<and> contentHash (snd (hd sampleCache)) = sha256 underfullEnv ''# A''
   \<and> (\<exists>w'. processEvent underfullEnv ''add'' ''vault/a.md'' (cachedWorld 1700000000000) = Some (Inr (), w')
          \<and> requests w' = 0 \<and> items w' = []
          \<and> files w' = files (cachedWorld 1700000000000))
   \<and> (\<exists>w'. processEvent underfullEnv ''add'' ''vault/a.md'' (cachedWorld 1700000000500) = Some (Inr (), w')
          \<and> requests w' = 0 \<and> items w' = []
          \<and> fst (loadCache w') =
              Inr [(''vault/a.md'',
                    \<lparr> contentHash = ''A #'', vectorIds = [''vault/a.md::0''],
                      modifiedTime = 1700000000500 \<rparr>)])"
proof -
  have f: "files (cachedWorld m) ''vault/a.md'' = Some (''# A'', m)" for m
    by (simp add: cachedWorld_def emptyWorld_def CACHE_FILE_PATH_def)
  have e: "map_of sampleCache ''vault/a.md'' = Some (snd (hd sampleCache))"
    by (simp add: sampleCache_def)
  have h: "contentHash (snd (hd sampleCache)) = sha256 underfullEnv ''# A''"
    by (simp add: sampleCache_def underfullEnv_def)
  have s: "requests (cachedWorld m) = 0" "items (cachedWorld m) = []" for m
    by (simp_all add: cachedWorld_def emptyWorld_def)
  have u: "AList.update ''vault/a.md'' (snd (hd sampleCache)\<lparr> modifiedTime := 1700000000500 \<rparr>) sampleCache
           = [(''vault/a.md'',
               \<lparr> contentHash = ''A #'', vectorIds = [''vault/a.md::0''], modifiedTime = 1700000000500 \<rparr>)]"
    by (simp add: sampleCache_def)
  have t: "modifiedTime (snd (hd sampleCache)) = 1700000000000" by (simp add: sampleCache_def)
  from processFile_unchanged_content [OF f [of 1700000000000] cachedWorld_loadCache e h]
    processFile_unchanged_content [OF f [of 1700000000500] cachedWorld_loadCache e h]
    f e h s u t cachedWorld_loadCache
  show ?thesis by auto
qed

lemma indexedWorld_loadCache: "loadCache indexedWorld = (Inr sampleCache, indexedWorld\<lparr> dirs := {VECTOR_STORE_DIR} \<rparr>)"
proof -
  have "distinct (map fst sampleCache)" by (simp add: sampleCache_def)
  then show ?thesis
    by (simp add: loadCache_eq indexedWorld_def emptyWorld_def parseCache_roundtrip)
qed

lemma indexedWorld_deleteItem:
  "deleteItem ''vault/a.md'' (indexedWorld\<lparr> dirs := {VECTOR_STORE_DIR} \<rparr>)
   = (Inr (), indexedWorld\<lparr> dirs := {VECTOR_STORE_DIR} \<rparr>)"
  by (simp add: deleteItem_def indexedWorld_def emptyWorld_def vectorDataOf_def)

lemma indexedWorld_deleteFile:
  "deleteFile ''vault/a.md'' indexedWorld = saveCache [] (indexedWorld\<lparr> dirs := {VECTOR_STORE_DIR} \<rparr>)"
proof -
  have f: "filter (\<lambda>(chunkId, e). startsWith chunkId ''vault/a.md'') sampleCache = sampleCache"
    "filter (\<lambda>(chunkId, e). \<not> startsWith chunkId ''vault/a.md'') sampleCache = []"
    "map fst sampleCache = [''vault/a.md'']"
    by (simp_all add: sampleCache_def startsWith_def)
  show ?thesis
    by (simp add: deleteFile_def bindW_def indexedWorld_loadCache f indexedWorld_deleteItem)
qed

text \<open>
  C2 at a concrete input.  The cache lists \<open>vault/a.md\<close> with the vector id
  \<open>vault/a.md::0\<close>, and the index holds that record.  Processing \<open>unlink\<close> for
  \<open>vault/a.md\<close> empties the cache and persists it, but the index still holds the record:
  \<open>deleteFile\<close> hands the keys of the cache, which are file paths, to \<open>deleteItem\<close>,
  and no record has a file path as its id.
\<close>

theorem deleteFile_keeps_vectors:
  "map_option (\<lambda>(r, w'). (r, map itemId (items w'), fst (loadCache w')))
     (processEvent underfullEnv ''unlink'' ''vault/a.md'' indexedWorld)
   = Some (Inr (), [''vault/a.md::0''], Inr [])"
proof -
  have "map itemId (items indexedWorld) = [''vault/a.md::0'']"
    by (simp add: indexedWorld_def vectorDataOf_def)
  then show ?thesis
    using loadCache_saveCache [of "[]" "indexedWorld\<lparr> dirs := {VECTOR_STORE_DIR} \<rparr>"]
    by (simp add: processEvent_def indexedWorld_deleteFile saveCache_eq)
qed

lemma add_missing: "files w p = None \<Longrightarrow> processEvent en ''add'' p w = Some (Inl (enoent p), w)"
  by (simp add: processEvent_def processFile_def stat_def)

lemma saveQueue_files: "files (saveQueue q w) p = (if p = QUEUE_FILE then Some (stringifyQueue q, now w) else files w p)"
  by (simp add: saveQueue_def writeFile_def)

text \<open>
  C4 at a concrete schedule.  While \<open>w\<close> is in flight, \<open>x\<close> and then \<open>y\<close> are queued.
  \<open>w\<close> completes; its \<open>finally\<close> block clears \<open>isProcessingFile\<close>, dequeues \<open>x\<close> and
  waits for \<open>saveQueue\<close>.  An event for \<open>z\<close> arrives in that gap, finds the flag clear,
  and starts at once.  The \<open>setImmediate\<close> call for \<open>x\<close> then finds the flag set and
  queues \<open>x\<close> again, behind \<open>y\<close>.  The events start in the order \<open>w\<close>, \<open>z\<close>, \<open>y\<close>, \<open>x\<close>.
\<close>

theorem queue_overtaking:
  "started (run underfullEnv
      [Arrive ''add'' ''w'', Arrive ''add'' ''x'', Arrive ''add'' ''y'', Complete,
       Arrive ''add'' ''z'', SaveDone, Immediate, Complete, SaveDone, Immediate,
       Complete, SaveDone, Immediate, Complete] idleSystem)
   = [(''add'', ''w''), (''add'', ''z''), (''add'', ''y''), (''add'', ''x'')]"
  by (simp add: run_def handleFileEvent_def completeEvent_def saveQueueDone_def runImmediate_def
      idleSystem_def add_missing saveQueue_files emptyWorld_def QUEUE_FILE_def Let_def)

section \<open>Properties of retrieval\<close>

text \<open>
  C7.  If the steps before the index search succeed and the index search fails with an
  error whose message says that the document collection is too small, \<open>searchContent\<close>
  returns the empty result list.  Every error of the search that does not say so is
  thrown to the caller unchanged.
\<close>

theorem searchContent_underfull:
  "(bindW (if \<not> indexCreated w then createIndex w else (Inr (), w))
          (\<lambda>u. queryOllama (ollama en) query) = (Inr v, w2) \<longrightarrow>
    queryItems en (items w2) v query (searchLimit * 2) = Inl e \<longrightarrow>
    tooFewDocuments e \<longrightarrow> searchContent en query w = (Inr [], w2))
   \<and> (searchTry en query w = (Inl e', w') \<longrightarrow> \<not> tooFewDocuments e' \<longrightarrow>
        searchContent en query w = (Inl e', w'))"
  by (auto simp: searchContent_def searchTry_def bindW_def split: prod.splits sum.splits)

lemma queryCall_healthy: "queryCall (failingUntil 0) q n = (Inr (replicate vectorDimensions 0), Suc n)"
  by (simp add: queryCall_def failingUntil_def)

lemma underfull_query:
  "bindW (if \<not> indexCreated emptyWorld then createIndex emptyWorld else (Inr (), emptyWorld))
          (\<lambda>u. queryOllama (ollama underfullEnv) ''grappling'')
   = (Inr (replicate vectorDimensions 0), emptyWorld\<lparr> indexCreated := True, items := [], requests := 1 \<rparr>)"
  by (simp add: bindW_def createIndex_def emptyWorld_def queryOllama_def retryWithBackoff_def
      retryLoop.simps underfullEnv_def queryCall_healthy)

lemma underfull_phrase:
  "tooFewDocuments (Error ''winkBM25S: document collection is too small for consolidation; add more docs!'')"
  by (simp add: tooFewDocuments_def)

lemma offline_try:
  "searchTry offlineEnv ''grappling'' emptyWorld
   = (Inl (Error ''Operation failed after 3 retries: fetch failed''),
      emptyWorld\<lparr> indexCreated := True, items := [], requests := 4 \<rparr>)"
  by (simp add: searchTry_def bindW_def createIndex_def emptyWorld_def queryOllama_def retryWithBackoff_def
      retryLoop.simps offlineEnv_def underfullEnv_def queryCall_def alwaysFailing_def maxRetries_def
      showNat.simps digitChar_def)

lemma offline_phrase: "\<not> tooFewDocuments (Error ''Operation failed after 3 retries: fetch failed'')"
  by (simp add: tooFewDocuments_def)

theorem searchContent_underfull_witness:
  "searchContent underfullEnv ''grappling'' emptyWorld
     = (Inr [], emptyWorld\<lparr> indexCreated := True, items := [], requests := 1 \<rparr>)
   \<and> searchContent offlineEnv ''grappling'' emptyWorld
     = (Inl (Error ''Operation failed after 3 retries: fetch failed''),
        emptyWorld\<lparr> indexCreated := True, items := [], requests := 4 \<rparr>)"
  using searchContent_underfull [of emptyWorld underfullEnv "''grappling''"
      "replicate vectorDimensions 0" "emptyWorld\<lparr> indexCreated := True, items := [], requests := 1 \<rparr>"
      "Error ''winkBM25S: document collection is too small for consolidation; add more docs!''"
      "Error ''x''" emptyWorld]
    searchContent_underfull [of emptyWorld offlineEnv "''grappling''"
      "[]" emptyWorld "Error ''x''"
      "Error ''Operation failed after 3 retries: fetch failed''"
      "emptyWorld\<lparr> indexCreated := True, items := [], requests := 4 \<rparr>"]
    underfull_query underfull_phrase offline_try offline_phrase
  by (simp add: underfullEnv_def)

end
